theory Spec2Isabelle
  imports Complex_Main
begin

section \<open>Values, errors and the unit tables\<close>

text \<open>
  The arguments the functions inspect with \<^verbatim>\<open>typeof\<close>, \<^verbatim>\<open>in\<close>, \<^verbatim>\<open>!\<close> or \<^verbatim>\<open>||\<close> are
  JavaScript values. Magnitudes are numbers; they are modelled as reals, so the
  arithmetic of the model is exact (no NaN, no infinities, no binary rounding).
\<close>

datatype jsval = JUndefined | JBool bool | JNumber real | JString string

datatype error = TypeError

text \<open>\<^verbatim>\<open>var ms = { full: 'millisecond', abbr: 'ms', ref: 0 }, ...\<close>\<close>

record unit_info =
  full :: string
  abbr :: string
  ref :: nat

text \<open>\<^verbatim>\<open>var units = { ms: ms, s: s, ... }\<close>: the own properties of the object, in order.\<close>

definition units :: "(string \<times> unit_info) list" where
  "units =
    [(''ms'',  \<lparr>full = ''millisecond'', abbr = ''ms'',  ref = 0\<rparr>),
     (''s'',   \<lparr>full = ''second'',      abbr = ''s'',   ref = 1\<rparr>),
     (''min'', \<lparr>full = ''minute'',      abbr = ''min'', ref = 2\<rparr>),
     (''hr'',  \<lparr>full = ''hour'',        abbr = ''hr'',  ref = 3\<rparr>),
     (''day'', \<lparr>full = ''day'',         abbr = ''day'', ref = 4\<rparr>),
     (''wk'',  \<lparr>full = ''week'',        abbr = ''wk'',  ref = 5\<rparr>),
     (''mo'',  \<lparr>full = ''month'',       abbr = ''mo'',  ref = 6\<rparr>),
     (''yr'',  \<lparr>full = ''year'',        abbr = ''yr'',  ref = 7\<rparr>)]"

text \<open>
  \<^verbatim>\<open>units\<close> is an object literal, so it inherits from \<^verbatim>\<open>Object.prototype\<close>. The
  operator \<^verbatim>\<open>in\<close> and the property read \<^verbatim>\<open>units[s]\<close> both follow the prototype chain;
  these are the property names found there.
\<close>

definition Object_prototype_keys :: "string list" where
  "Object_prototype_keys =
    [''constructor'', ''hasOwnProperty'', ''isPrototypeOf'', ''propertyIsEnumerable'',
     ''toLocaleString'', ''toString'', ''valueOf'', ''__proto__'',
     ''__defineGetter__'', ''__defineSetter__'', ''__lookupGetter__'', ''__lookupSetter__'']"

text \<open>
  \<^verbatim>\<open>b in units\<close>. A value that is not a string is first turned into a property key:
  \<^verbatim>\<open>"undefined"\<close>, \<^verbatim>\<open>"true"\<close>, \<^verbatim>\<open>"false"\<close> or the decimal rendering of a number, none
  of which is a property of \<^verbatim>\<open>units\<close>.
\<close>

fun in_units :: "jsval \<Rightarrow> bool" where
  "in_units (JString s) = (s \<in> set (map fst units) \<or> s \<in> set Object_prototype_keys)"
| "in_units _ = False"

text \<open>\<^verbatim>\<open>var unitRefs = [ { unit: 'ms', 'next': 1000 }, ... , { unit: 'yr', 'next': null } ]\<close>\<close>

record unit_ref =
  unit :: string
  nextf :: "real option"

definition unitRefs :: "unit_ref list" where
  "unitRefs =
    [\<lparr>unit = ''ms'',  nextf = Some 1000\<rparr>,
     \<lparr>unit = ''s'',   nextf = Some 60\<rparr>,
     \<lparr>unit = ''min'', nextf = Some 60\<rparr>,
     \<lparr>unit = ''hr'',  nextf = Some 24\<rparr>,
     \<lparr>unit = ''day'', nextf = Some 7\<rparr>,
     \<lparr>unit = ''wk'',  nextf = Some (4345238 / 1000000)\<rparr>,
     \<lparr>unit = ''mo'',  nextf = Some 12\<rparr>,
     \<lparr>unit = ''yr'',  nextf = None\<rparr>]"

text \<open>A \<^verbatim>\<open>null\<close> factor used in arithmetic or in a comparison counts as 0.\<close>

definition toNumber :: "real option \<Rightarrow> real" where
  "toNumber f = (case f of Some x \<Rightarrow> x | None \<Rightarrow> 0)"

text \<open>\<^verbatim>\<open>pluralize(s)\<close>: \<^verbatim>\<open>s.substr(-1) == 's' ? s : s + 's'\<close>; \<^verbatim>\<open>substr(-1)\<close> of the empty
  string is the empty string.\<close>

definition pluralize :: "string \<Rightarrow> string" where
  "pluralize s = (if s \<noteq> [] \<and> last s = CHR ''s'' then s else s @ ''s'')"

text \<open>
  \<^verbatim>\<open>unitRef(s)\<close>: \<^verbatim>\<open>typeof(s) == 'number' ? s : units[s]['ref']\<close>. Every caller passes
  a string. An own property gives its \<^verbatim>\<open>ref\<close>; an inherited property is an object or
  function without a \<^verbatim>\<open>ref\<close>, so the read gives \<^verbatim>\<open>undefined\<close> (\<open>None\<close>); for any
  other name \<^verbatim>\<open>units[s]\<close> is \<^verbatim>\<open>undefined\<close> and reading \<^verbatim>\<open>['ref']\<close> from it throws.
\<close>

definition unitRef :: "string \<Rightarrow> error + nat option" where
  "unitRef s =
    (case map_of units s of
       Some u \<Rightarrow> Inr (Some (ref u))
     | None \<Rightarrow> if s \<in> set Object_prototype_keys then Inr None else Inl TypeError)"

text \<open>\<^verbatim>\<open>(typeof(u) == 'string' && u in units) ? unitRef(u) : unitRef('hr')\<close>, the first
  statement of both \<^verbatim>\<open>convert\<close> (twice) and \<^verbatim>\<open>concise\<close>.\<close>

definition unitRef_or_hr :: "jsval \<Rightarrow> error + nat option" where
  "unitRef_or_hr u =
    (case u of
       JString s \<Rightarrow> if in_units u then unitRef s else unitRef ''hr''
     | _ \<Rightarrow> unitRef ''hr'')"

text \<open>\<^verbatim>\<open>!x\<close> is the negation of this.\<close>

fun truthy :: "jsval \<Rightarrow> bool" where
  "truthy JUndefined = False"
| "truthy (JBool b) = b"
| "truthy (JNumber x) = (x \<noteq> 0)"
| "truthy (JString s) = (s \<noteq> [])"

section \<open>The Duration object\<close>

text \<open>The fields \<^verbatim>\<open>_duration\<close>, \<^verbatim>\<open>_unit\<close>, \<^verbatim>\<open>_precision\<close>, \<^verbatim>\<open>_abbr\<close> of an instance.\<close>

record duration =
  d_duration :: real
  d_unit :: string
  d_precision :: real
  d_abbr :: bool

text \<open>The \<^verbatim>\<open>opts\<close> argument: a field is \<open>None\<close> when the object has no such key.\<close>

record opts =
  precision :: "jsval option"
  abbr_opt :: "jsval option"

text \<open>\<^verbatim>\<open>var options = { abbr: true, precision: 2 }\<close>\<close>

definition options_abbr :: bool where
  "options_abbr = True"

definition options_precision :: real where
  "options_precision = 2"

text \<open>The constructor \<^verbatim>\<open>Duration(n, b, opts)\<close>.\<close>

definition Duration :: "jsval \<Rightarrow> jsval \<Rightarrow> opts option \<Rightarrow> duration" where
  "Duration n b os =
    \<lparr>d_duration = (case n of JNumber x \<Rightarrow> x | _ \<Rightarrow> 1),
     d_unit = (case b of JString s \<Rightarrow> if in_units b then s else ''hr'' | _ \<Rightarrow> ''hr''),
     d_precision =
       (case os of
          Some ops \<Rightarrow> (case precision ops of Some (JNumber p) \<Rightarrow> p | _ \<Rightarrow> options_precision)
        | None \<Rightarrow> options_precision),
     d_abbr =
       (case os of
          Some ops \<Rightarrow> (case abbr_opt ops of Some (JBool a) \<Rightarrow> a | _ \<Rightarrow> options_abbr)
        | None \<Rightarrow> options_abbr)\<rparr>"

section \<open>Conversion\<close>

text \<open>\<^verbatim>\<open>while(du < cu) { cu--; n *= unitRefs[cu]['next']; }\<close>\<close>

fun walk_down :: "nat \<Rightarrow> nat \<Rightarrow> real \<Rightarrow> real" where
  "walk_down du cu n =
    (if du < cu then walk_down du (cu - 1) (n * toNumber (nextf (unitRefs ! (cu - 1)))) else n)"

text \<open>\<^verbatim>\<open>while(du > cu) { n /= unitRefs[cu]['next']; cu++; }\<close>\<close>

function walk_up :: "nat \<Rightarrow> nat \<Rightarrow> real \<Rightarrow> real" where
  "walk_up du cu n =
    (if du > cu then walk_up du (cu + 1) (n / toNumber (nextf (unitRefs ! cu))) else n)"
  by pat_completeness auto
termination
  by (relation "measure (\<lambda>(du, cu, n). du - cu)") auto

declare walk_down.simps [simp del]
declare walk_up.simps [simp del]

text \<open>
  \<^verbatim>\<open>Duration.convert(n, from, to, precision)\<close>. A comparison with \<^verbatim>\<open>undefined\<close> is false,
  so neither loop runs when a rank is \<^verbatim>\<open>undefined\<close>; \<^verbatim>\<open>unitRefs[undefined]\<close> is
  \<^verbatim>\<open>undefined\<close> and reading \<^verbatim>\<open>['unit']\<close> from it throws.
\<close>

definition convert :: "real \<Rightarrow> jsval \<Rightarrow> jsval \<Rightarrow> jsval \<Rightarrow> error + duration" where
  "convert n from_u to_u prec =
    (let prec = (if truthy prec then prec else JNumber 2) in
     (case unitRef_or_hr from_u of
        Inl e \<Rightarrow> Inl e
      | Inr cu \<Rightarrow>
         (case unitRef_or_hr to_u of
            Inl e \<Rightarrow> Inl e
          | Inr du \<Rightarrow>
             (let n =
                (case cu of
                   None \<Rightarrow> n
                 | Some c \<Rightarrow>
                    (case du of
                       None \<Rightarrow> n
                     | Some d \<Rightarrow>
                         if d < c then walk_down d c n
                         else if d > c then walk_up d c n
                         else n))
              in (case du of
                    None \<Rightarrow> Inl TypeError
                  | Some d \<Rightarrow>
                      Inr (Duration (JNumber n) (JString (unit (unitRefs ! d)))
                             (Some \<lparr>precision = Some prec, abbr_opt = None\<rparr>)))))))"

section \<open>Concision search\<close>

text \<open>
  \<^verbatim>\<open>Duration.concise(n, u, p)\<close> calls itself, so the model carries fuel: the number of
  nested invocations allowed, with \<open>None\<close> when it runs out. \<^verbatim>\<open>unitRefs[undefined]\<close>
  is \<^verbatim>\<open>undefined\<close> and reading \<^verbatim>\<open>.next\<close> from it throws. The comparison
  \<^verbatim>\<open>n >= max\<close> with \<^verbatim>\<open>max\<close> being \<^verbatim>\<open>null\<close> compares with 0. The getters
  \<^verbatim>\<open>prev.duration()\<close> and \<^verbatim>\<open>prev.unit()\<close> read the fields. The second recursive call
  passes no third argument, so its \<^verbatim>\<open>p\<close> is \<^verbatim>\<open>undefined\<close>.
\<close>

fun concise :: "nat \<Rightarrow> real \<Rightarrow> jsval \<Rightarrow> jsval \<Rightarrow> (error + duration) option" where
  "concise 0 n u p = None"
| "concise (Suc k) n u p =
    (case unitRef_or_hr u of
       Inl e \<Rightarrow> Some (Inl e)
     | Inr None \<Rightarrow> Some (Inl TypeError)
     | Inr (Some r) \<Rightarrow>
        (let mx = nextf (unitRefs ! r) in
         if n < 1 then
           (if r \<le> 0 then
              Some (Inr (Duration (JNumber n) u (Some \<lparr>precision = Some p, abbr_opt = None\<rparr>)))
            else
              (case convert n u (JString (unit (unitRefs ! (r - 1)))) p of
                 Inl e \<Rightarrow> Some (Inl e)
               | Inr prev \<Rightarrow> concise k (d_duration prev) (JString (d_unit prev)) p))
         else if n \<ge> toNumber mx then
           (if r \<ge> length unitRefs - 1 then
              Some (Inr (Duration (JNumber n) u (Some \<lparr>precision = Some p, abbr_opt = None\<rparr>)))
            else
              (case convert n u (JString (unit (unitRefs ! (r + 1)))) p of
                 Inl e \<Rightarrow> Some (Inl e)
               | Inr nxt \<Rightarrow> concise k (d_duration nxt) (JString (d_unit nxt)) JUndefined))
         else
           Some (Inr (Duration (JNumber n) u (Some \<lparr>precision = Some p, abbr_opt = None\<rparr>)))))"

section \<open>Instance methods\<close>

text \<open>\<^verbatim>\<open>Duration.prototype.abbr(o)\<close> called with a boolean: the setter branch,
  \<^verbatim>\<open>this._abbr = !!o; return this\<close>.\<close>

definition abbr_set :: "duration \<Rightarrow> bool \<Rightarrow> duration" where
  "abbr_set d b = d\<lparr>d_abbr := b\<rparr>"

text \<open>\<^verbatim>\<open>Duration.prototype.to(u)\<close>; \<^verbatim>\<open>Duration.prototype.convert\<close> is an alias.\<close>

definition Duration_to :: "duration \<Rightarrow> jsval \<Rightarrow> error + duration" where
  "Duration_to d u =
    (case convert (d_duration d) (JString (d_unit d)) u (JNumber (d_precision d)) of
       Inl e \<Rightarrow> Inl e
     | Inr c \<Rightarrow> Inr (abbr_set c (d_abbr d)))"

text \<open>
  \<^verbatim>\<open>Duration.prototype.toString(sep)\<close>. The number is turned into text by the
  JavaScript runtime; that rendering is the parameter \<open>num2str\<close>. When \<^verbatim>\<open>_unit\<close> is
  not an own property of \<^verbatim>\<open>units\<close>, \<^verbatim>\<open>u['abbr']\<close> is \<^verbatim>\<open>undefined\<close> (or \<^verbatim>\<open>u\<close>
  itself is) and the call throws.
\<close>

definition toString :: "(real \<Rightarrow> string) \<Rightarrow> jsval \<Rightarrow> duration \<Rightarrow> error + string" where
  "toString num2str sep d =
    (let sep = (case sep of JString x \<Rightarrow> x | _ \<Rightarrow> '' '') in
     (case map_of units (d_unit d) of
        None \<Rightarrow> Inl TypeError
      | Some u \<Rightarrow>
         (let u = (if d_abbr d then abbr u else full u)
          in Inr (num2str (d_duration d) @ sep @ pluralize u))))"

text \<open>The decimal rendering of a natural number, and with it the runtime's rendering of
  an integral number below \<open>10\<^sup>2\<^sup>1\<close> in magnitude.\<close>

fun decimal :: "nat \<Rightarrow> string" where
  "decimal n =
    (if n < 10 then [''0123456789'' ! n] else decimal (n div 10) @ [''0123456789'' ! (n mod 10)])"

declare decimal.simps [simp del]

definition integral_toString :: "real \<Rightarrow> string" where
  "integral_toString x = (if x < 0 then ''-'' else []) @ decimal (nat \<lfloor>\<bar>x\<bar>\<rfloor>)"

section \<open>Decimal rounding\<close>


section \<open>Double-precision numbers\<close>

text \<open>
  A JavaScript number is an IEEE 754 double: a finite value, an infinity or NaN. The
  definitions of this section give the arithmetic of \<^verbatim>\<open>convert\<close> with the rounding of
  every operation; the two zeros are not told apart.
\<close>

text \<open>The power \<open>2\<^sup>e\<close> for an integer \<open>e\<close>.\<close>

definition pow2 :: "int \<Rightarrow> real" where
  "pow2 e = (if 0 \<le> e then 2 ^ nat e else 1 / 2 ^ nat (- e))"

text \<open>The nearest integer, a tie going to the even one.\<close>

definition round_even :: "real \<Rightarrow> int" where
  "round_even y =
    (let f = \<lfloor>y\<rfloor>; r = y - of_int f
     in if r < 1 / 2 then f else if 1 / 2 < r then f + 1 else if even f then f else f + 1)"

text \<open>
  The double nearest to the real \<open>x\<close>, ties to even, as long as it is finite: 53
  significant bits, and below \<open>2\<^sup>-\<^sup>1\<^sup>0\<^sup>2\<^sup>2\<close> the fixed spacing \<open>2\<^sup>-\<^sup>1\<^sup>0\<^sup>7\<^sup>4\<close> of the
  subnormal numbers.
\<close>

definition fl :: "real \<Rightarrow> real" where
  "fl x =
    (if x = 0 then 0
     else (let e = max \<lfloor>log 2 \<bar>x\<bar>\<rfloor> (- 1022) - 52
           in of_int (round_even (x / pow2 e)) * pow2 e))"


text \<open>The values of the type Number.\<close>

datatype number = Number real | Infinity | NegInfinity | NaN

text \<open>
  The number an operation returns whose exact result is \<open>x\<close>, and the number a decimal
  numeral of value \<open>x\<close> denotes: \<open>x\<close> rounded, and an infinity once the rounded value
  reaches \<open>2\<^sup>1\<^sup>0\<^sup>2\<^sup>4\<close>.
\<close>

definition to_double :: "real \<Rightarrow> number" where
  "to_double x =
    (let r = fl x
     in if pow2 1024 \<le> r then Infinity else if r \<le> - pow2 1024 then NegInfinity else Number r)"

text \<open>\<^verbatim>\<open>n * f\<close> and \<^verbatim>\<open>n / f\<close> for a number \<open>n\<close> and a finite \<open>f\<close>.\<close>

fun times_double :: "number \<Rightarrow> real \<Rightarrow> number" where
  "times_double (Number a) f = to_double (a * f)"
| "times_double Infinity f = (if f = 0 then NaN else if 0 < f then Infinity else NegInfinity)"
| "times_double NegInfinity f = (if f = 0 then NaN else if 0 < f then NegInfinity else Infinity)"
| "times_double NaN f = NaN"

fun divide_double :: "number \<Rightarrow> real \<Rightarrow> number" where
  "divide_double (Number a) f =
    (if f = 0 then (if a = 0 then NaN else if 0 < a then Infinity else NegInfinity)
     else to_double (a / f))"
| "divide_double Infinity f = (if 0 \<le> f then Infinity else NegInfinity)"
| "divide_double NegInfinity f = (if 0 \<le> f then NegInfinity else Infinity)"
| "divide_double NaN f = NaN"

text \<open>\<^verbatim>\<open>unitRefs[i]['next']\<close> as the double its literal denotes; \<^verbatim>\<open>null\<close> counts as 0.\<close>

definition factor_fl :: "nat \<Rightarrow> real" where
  "factor_fl i = fl (toNumber (nextf (unitRefs ! i)))"

text \<open>The two \<^verbatim>\<open>while\<close> statements of \<^verbatim>\<open>convert\<close>, lines 104-107 and 109-112, on doubles.\<close>

fun walk_down_fl :: "nat \<Rightarrow> nat \<Rightarrow> number \<Rightarrow> number" where
  "walk_down_fl du cu n =
    (if du < cu then walk_down_fl du (cu - 1) (times_double n (factor_fl (cu - 1))) else n)"

function walk_up_fl :: "nat \<Rightarrow> nat \<Rightarrow> number \<Rightarrow> number" where
  "walk_up_fl du cu n =
    (if du > cu then walk_up_fl du (cu + 1) (divide_double n (factor_fl cu)) else n)"
  by pat_completeness auto
termination
  by (relation "measure (\<lambda>(du, cu, n). du - cu)") auto

declare walk_down_fl.simps [simp del]
declare walk_up_fl.simps [simp del]

text \<open>
  \<^verbatim>\<open>Duration.convert(n, from, to, precision).duration()\<close> on doubles: the ranks as in
  \<open>convert\<close>, the scaling on doubles, and the constructor keeps a number \<open>n\<close> as it is.
  \<^verbatim>\<open>precision\<close> is stored by the constructor only, so it is not an argument here.
\<close>

definition convert_fl :: "number \<Rightarrow> jsval \<Rightarrow> jsval \<Rightarrow> error + number" where
  "convert_fl n from_u to_u =
    (case unitRef_or_hr from_u of
       Inl e \<Rightarrow> Inl e
     | Inr cu \<Rightarrow>
        (case unitRef_or_hr to_u of
           Inl e \<Rightarrow> Inl e
         | Inr du \<Rightarrow>
            (let n =
               (case cu of
                  None \<Rightarrow> n
                | Some c \<Rightarrow>
                   (case du of
                      None \<Rightarrow> n
                    | Some d \<Rightarrow>
                        if d < c then walk_down_fl d c n
                        else if d > c then walk_up_fl d c n
                        else n))
             in (case du of None \<Rightarrow> Inl TypeError | Some d \<Rightarrow> Inr n))))"

section \<open>The rounding helper\<close>







subsection \<open>The runtime's conversions on plain decimals\<close>










section \<open>The rounding of the specification\<close>



section \<open>Shorthand for the statements\<close>

text \<open>The scale factor and the unit name stored at a rank of \<^verbatim>\<open>unitRefs\<close>.\<close>

abbreviation factor :: "nat \<Rightarrow> real" where
  "factor i \<equiv> toNumber (nextf (unitRefs ! i))"

abbreviation unit_at :: "nat \<Rightarrow> string" where
  "unit_at i \<equiv> unit (unitRefs ! i)"

text \<open>The precision a Duration built with \<^verbatim>\<open>{ precision: p }\<close> carries.\<close>

abbreviation precision_of :: "jsval \<Rightarrow> real" where
  "precision_of p \<equiv> (case p of JNumber x \<Rightarrow> x | _ \<Rightarrow> 2)"

text \<open>The relative error bound after \<open>k\<close> rounded operations, and the product of
  the scale factors between two ranks.\<close>

abbreviation err :: "nat \<Rightarrow> real" where
  "err k \<equiv> (1 + 1 / 2 ^ 53) ^ k - 1"

abbreviation factors_fl :: "nat \<Rightarrow> nat \<Rightarrow> real" where
  "factors_fl lo hi \<equiv> prod_list (map factor_fl [lo..<hi])"

section \<open>Facts about the tables\<close>

lemma map_of_units_cases:
  "map_of units s = Some u \<Longrightarrow>
     (s = ''ms'' \<and> ref u = 0) \<or> (s = ''s'' \<and> ref u = 1) \<or> (s = ''min'' \<and> ref u = 2) \<or>
     (s = ''hr'' \<and> ref u = 3) \<or> (s = ''day'' \<and> ref u = 4) \<or> (s = ''wk'' \<and> ref u = 5) \<or>
     (s = ''mo'' \<and> ref u = 6) \<or> (s = ''yr'' \<and> ref u = 7)"
  by (auto simp: units_def split: if_splits)

lemma unit_of_ref: "map_of units s = Some u \<Longrightarrow> ref u \<le> 7 \<and> unit_at (ref u) = s"
  by (drule map_of_units_cases) (auto simp: unitRefs_def)

lemma unitRef_or_hr_own:
  "map_of units s = Some u \<Longrightarrow> unitRef_or_hr (JString s) = Inr (Some (ref u))"
  by (auto simp: unitRef_or_hr_def unitRef_def dest: map_of_SomeD intro: rev_image_eqI)

lemma in_units_own: "map_of units s = Some u \<Longrightarrow> in_units (JString s)"
  by (auto dest: map_of_SomeD intro: rev_image_eqI)

section \<open>The conversion loops as folds over the ranks they visit\<close>

lemma walk_down_foldl:
  "walk_down du cu n = foldl (\<lambda>a i. a * factor i) n (rev [du..<cu])"
proof (induction du cu n rule: walk_down.induct)
  case (1 du cu n)
  show ?case
  proof (cases "du < cu")
    case True
    then have "[du..<cu] = [du..<cu - 1] @ [cu - 1]"
      by (metis Suc_pred' less_Suc_eq_le upt_Suc_append gr0I not_less0)
    with True 1 show ?thesis
      by (simp add: walk_down.simps [of du cu])
  next
    case False
    then show ?thesis
      by (simp add: walk_down.simps [of du cu])
  qed
qed

lemma walk_up_foldl:
  "walk_up du cu n = foldl (\<lambda>a i. a / factor i) n [cu..<du]"
proof (induction du cu n rule: walk_up.induct)
  case (1 du cu n)
  show ?case
  proof (cases "du > cu")
    case True
    with 1 show ?thesis
      by (simp add: walk_up.simps [of du cu] upt_conv_Cons)
  next
    case False
    then show ?thesis
      by (simp add: walk_up.simps [of du cu])
  qed
qed

lemma convert_own:
  assumes "map_of units f = Some uf" and "map_of units t = Some ut"
  shows "convert n (JString f) (JString t) p =
          Inr \<lparr>d_duration =
                 (if ref ut < ref uf then walk_down (ref ut) (ref uf) n
                  else if ref uf < ref ut then walk_up (ref ut) (ref uf) n
                  else n),
               d_unit = t,
               d_precision = (case p of JNumber x \<Rightarrow> if x = 0 then 2 else x | _ \<Rightarrow> 2),
               d_abbr = True\<rparr>"
proof -
  have t: "unit_at (ref ut) = t" "in_units (JString t)"
    using assms(2) unit_of_ref in_units_own by blast+
  show ?thesis
    unfolding convert_def Let_def unitRef_or_hr_own [OF assms(1)] unitRef_or_hr_own [OF assms(2)]
    using t
    by (cases p) (simp_all add: Duration_def options_precision_def options_abbr_def)
qed

section \<open>Claims about convert\<close>

text \<open>
  C1. For valid units \<open>f\<close> and \<open>t\<close> with ranks \<open>cu = ref uf\<close> and \<open>du = ref ut\<close>,
  \<^verbatim>\<open>convert(n, f, t, p)\<close> returns a Duration of unit \<open>t\<close> whose magnitude is \<open>n\<close>
  multiplied by the scale-table factors at the ranks \<open>cu - 1\<close>, \<open>cu - 2\<close>, ..., \<open>du\<close> in
  this order when \<open>du < cu\<close>, \<open>n\<close> divided by the factors at the ranks \<open>cu\<close>,
  \<open>cu + 1\<close>, ..., \<open>du - 1\<close> in this order when \<open>du > cu\<close>, and \<open>n\<close> itself when
  \<open>du = cu\<close>. In particular \<^verbatim>\<open>Duration.convert(1000, 'ms', 's')\<close> has magnitude 1 and
  unit \<^verbatim>\<open>'s'\<close>.
\<close>

theorem convert_walks_scale_table:
  assumes "map_of units f = Some uf" and "map_of units t = Some ut"
  shows "(\<exists>d. convert n (JString f) (JString t) p = Inr d \<and> d_unit d = t \<and>
              d_duration d =
                (if ref ut < ref uf then foldl (\<lambda>a i. a * factor i) n (rev [ref ut..<ref uf])
                 else if ref uf < ref ut then foldl (\<lambda>a i. a / factor i) n [ref uf..<ref ut]
                 else n)) \<and>
         convert 1000 (JString ''ms'') (JString ''s'') JUndefined =
           Inr \<lparr>d_duration = 1, d_unit = ''s'', d_precision = 2, d_abbr = True\<rparr>"
proof
  show "\<exists>d. convert n (JString f) (JString t) p = Inr d \<and> d_unit d = t \<and>
              d_duration d =
                (if ref ut < ref uf then foldl (\<lambda>a i. a * factor i) n (rev [ref ut..<ref uf])
                 else if ref uf < ref ut then foldl (\<lambda>a i. a / factor i) n [ref uf..<ref ut]
                 else n)"
    unfolding convert_own [OF assms] walk_down_foldl walk_up_foldl by simp
  show "convert 1000 (JString ''ms'') (JString ''s'') JUndefined =
           Inr \<lparr>d_duration = 1, d_unit = ''s'', d_precision = 2, d_abbr = True\<rparr>"
    by (simp add: convert_def unitRef_or_hr_def unitRef_def units_def Object_prototype_keys_def
        walk_up.simps unitRefs_def toNumber_def Duration_def options_precision_def
        options_abbr_def)
qed

theorem convert_walks_scale_table_witness:
  "map_of units ''hr'' = Some \<lparr>full = ''hour'', abbr = ''hr'', ref = 3\<rparr> \<and>
   map_of units ''s'' = Some \<lparr>full = ''second'', abbr = ''s'', ref = 1\<rparr> \<and>
   (\<exists>d. convert 2 (JString ''hr'') (JString ''s'') JUndefined = Inr d \<and> d_unit d = ''s'' \<and>
        d_duration d = 7200)"
proof -
  have f: "map_of units ''hr'' = Some \<lparr>full = ''hour'', abbr = ''hr'', ref = 3\<rparr>"
    by (simp add: units_def)
  have t: "map_of units ''s'' = Some \<lparr>full = ''second'', abbr = ''s'', ref = 1\<rparr>"
    by (simp add: units_def)
  have "[Suc 0..<3] = [1, 2]"
    by (simp add: upt_conv_Cons)
  then show ?thesis
    using f t convert_walks_scale_table [OF f t, of 2 JUndefined]
    by (simp add: unitRefs_def toNumber_def)
qed

section \<open>One invocation of concise, and the whole search\<close>

lemma rank_cases: "r \<le> 7 \<Longrightarrow> r = 0 \<or> r = 1 \<or> r = 2 \<or> r = 3 \<or> r = 4 \<or> r = 5 \<or> r = 6 \<or> r = (7::nat)"
  by arith

lemma unit_at_own: "r \<le> 7 \<Longrightarrow> \<exists>u. map_of units (unit_at r) = Some u \<and> ref u = r"
  by (drule rank_cases) (auto simp: unitRefs_def units_def)

lemma factor_gt_1: "r < 7 \<Longrightarrow> 1 < factor r"
proof -
  assume "r < 7"
  then have "r = 0 \<or> r = 1 \<or> r = 2 \<or> r = 3 \<or> r = 4 \<or> r = 5 \<or> r = 6" by arith
  then show ?thesis by (auto simp: unitRefs_def toNumber_def)
qed

lemma factor_7: "factor 7 = 0"
  by (simp add: unitRefs_def toNumber_def)

lemma length_unitRefs: "length unitRefs = 8"
  by (simp add: unitRefs_def)

lemma rank_of_unit_at: "r \<le> 7 \<Longrightarrow> unitRef_or_hr (JString (unit_at r)) = Inr (Some r)"
  using unit_at_own unitRef_or_hr_own by blast

lemma in_units_unit_at: "r \<le> 7 \<Longrightarrow> in_units (JString (unit_at r))"
  using unit_at_own in_units_own by blast

lemma convert_ranks:
  assumes "r \<le> 7" and "r' \<le> 7"
  shows "convert n (JString (unit_at r)) (JString (unit_at r')) p =
          Inr \<lparr>d_duration =
                 (if r' < r then walk_down r' r n else if r < r' then walk_up r' r n else n),
               d_unit = unit_at r',
               d_precision = (case p of JNumber x \<Rightarrow> if x = 0 then 2 else x | _ \<Rightarrow> 2),
               d_abbr = True\<rparr>"
proof -
  obtain u where u: "map_of units (unit_at r) = Some u" "ref u = r"
    using unit_at_own [OF assms(1)] by blast
  obtain u' where u': "map_of units (unit_at r') = Some u'" "ref u' = r'"
    using unit_at_own [OF assms(2)] by blast
  show ?thesis
    using convert_own [OF u(1) u'(1), of n p] u(2) u'(2) by simp
qed

lemma Duration_at:
  "r \<le> 7 \<Longrightarrow>
   Duration (JNumber n) (JString (unit_at r)) (Some \<lparr>precision = Some p, abbr_opt = None\<rparr>) =
     \<lparr>d_duration = n, d_unit = unit_at r, d_precision = precision_of p, d_abbr = True\<rparr>"
  using in_units_unit_at [of r]
  by (cases p) (simp_all add: Duration_def options_precision_def options_abbr_def)

lemma concise_stay:
  assumes "r \<le> 7" and "1 \<le> n" and "r = 7 \<or> n < factor r"
  shows "concise (Suc k) n (JString (unit_at r)) p =
          Some (Inr \<lparr>d_duration = n, d_unit = unit_at r, d_precision = precision_of p,
                      d_abbr = True\<rparr>)"
proof (cases "r = 7")
  case True
  with assms(2) show ?thesis
    by (simp add: rank_of_unit_at Duration_at factor_7 length_unitRefs)
next
  case False
  with assms show ?thesis
    by (simp add: rank_of_unit_at Duration_at)
qed

lemma walk_down_Suc: "walk_down q (Suc q) n = n * factor q"
  by (simp add: walk_down.simps [of q "Suc q"] walk_down.simps [of q q])

lemma walk_up_Suc: "walk_up (Suc q) q n = n / factor q"
  by (simp add: walk_up.simps [of "Suc q" q] walk_up.simps [of "Suc q" "Suc q"])

lemma concise_step_down:
  assumes "r \<le> 7" and "n < 1" and "0 < r"
  shows "concise (Suc k) n (JString (unit_at r)) p =
          concise k (n * factor (r - 1)) (JString (unit_at (r - 1))) p"
proof -
  obtain q where q: "r = Suc q" using assms(3) by (cases r) auto
  then have "q \<le> 7" using assms(1) by arith
  then show ?thesis
    using assms q
    by (simp add: rank_of_unit_at convert_ranks walk_down_Suc)
qed

lemma concise_step_up:
  assumes "r < 7" and "factor r \<le> n"
  shows "concise (Suc k) n (JString (unit_at r)) p =
          concise k (n / factor r) (JString (unit_at (r + 1))) JUndefined"
proof -
  have n: "\<not> n < 1" using factor_gt_1 [OF assms(1)] assms(2) by linarith
  have "r + 1 \<le> 7" "r \<le> 7" using assms by arith+
  then show ?thesis
    using assms n
    by (simp add: rank_of_unit_at convert_ranks walk_up_Suc length_unitRefs)
qed

lemma concise_down:
  "r \<le> 7 \<Longrightarrow> n < 1 \<Longrightarrow> r < k \<Longrightarrow>
   \<exists>r'\<le>r. concise k n (JString (unit_at r)) p =
            Some (Inr \<lparr>d_duration = walk_down r' r n, d_unit = unit_at r',
                        d_precision = precision_of p, d_abbr = True\<rparr>) \<and>
          (r' = 0 \<or> 1 \<le> walk_down r' r n) \<and> walk_down r' r n < factor r' \<and>
          (n < 0 \<longrightarrow> r' = 0)"
proof (induction k arbitrary: n r)
  case 0
  then show ?case by simp
next
  case (Suc k)
  show ?case
  proof (cases r)
    case 0
    have "concise (Suc k) n (JString (unit_at 0)) p =
            Some (Inr \<lparr>d_duration = n, d_unit = unit_at 0, d_precision = precision_of p,
                        d_abbr = True\<rparr>)"
      using Suc.prems(2) by (simp add: rank_of_unit_at Duration_at)
    moreover have "walk_down 0 0 n = n"
      by (simp add: walk_down.simps [of 0 0])
    moreover have "n < factor 0"
      using Suc.prems(2) factor_gt_1 [of 0] by simp
    ultimately show ?thesis
      using 0 by simp
  next
    case (Suc q)
    let ?n' = "n * factor q"
    have q: "q \<le> 7" "q < 7" "q < k"
      using Suc Suc.prems by arith+
    have f: "1 < factor q"
      using factor_gt_1 q(2) by blast
    have step: "concise (Suc k) n (JString (unit_at r)) p = concise k ?n' (JString (unit_at q)) p"
      using concise_step_down [of r n k p] Suc Suc.prems by simp
    have unfold: "walk_down r' r n = walk_down r' q ?n'" if "r' \<le> q" for r'
      using that unfolding Suc by (simp add: walk_down.simps [of r' "Suc q"])
    have upper: "?n' < factor q"
      using Suc.prems(2) f by simp
    show ?thesis
    proof (cases "?n' < 1")
      case True
      from Suc.IH [OF q(1) True q(3)]
      obtain r' where r': "r' \<le> q"
        "concise k ?n' (JString (unit_at q)) p =
            Some (Inr \<lparr>d_duration = walk_down r' q ?n', d_unit = unit_at r',
                        d_precision = precision_of p, d_abbr = True\<rparr>)"
        "r' = 0 \<or> 1 \<le> walk_down r' q ?n'" "walk_down r' q ?n' < factor r'"
        "?n' < 0 \<longrightarrow> r' = 0"
        by blast
      have neg: "n < 0 \<longrightarrow> ?n' < 0"
        using f by (simp add: mult_neg_pos)
      have "r' \<le> r" using r'(1) Suc by simp
      then show ?thesis
        using r' step unfold [OF r'(1)] neg by auto
    next
      case False
      obtain k' where k': "k = Suc k'"
        using q(3) by (cases k) auto
      have stay: "concise k ?n' (JString (unit_at q)) p =
            Some (Inr \<lparr>d_duration = ?n', d_unit = unit_at q, d_precision = precision_of p,
                        d_abbr = True\<rparr>)"
        unfolding k' using concise_stay [of q ?n' k' p] q(1) False upper by simp
      have w: "walk_down q r n = ?n'"
        using Suc walk_down_Suc by simp
      have nonneg: "\<not> n < 0"
      proof
        assume "n < 0"
        then have "?n' < 0" using f by (simp add: mult_neg_pos)
        with False show False by simp
      qed
      have "q \<le> r" using Suc by simp
      then show ?thesis
        using step stay w False upper nonneg by auto
    qed
  qed
qed

lemma concise_up:
  "r \<le> 7 \<Longrightarrow> 1 \<le> n \<Longrightarrow> 7 - r < k \<Longrightarrow>
   \<exists>r'. r \<le> r' \<and> r' \<le> 7 \<and>
        concise k n (JString (unit_at r)) p =
            Some (Inr \<lparr>d_duration = walk_up r' r n, d_unit = unit_at r',
                        d_precision = (if r' = r then precision_of p else 2), d_abbr = True\<rparr>) \<and>
        1 \<le> walk_up r' r n \<and> (r' = 7 \<or> walk_up r' r n < factor r')"
proof (induction k arbitrary: n r p)
  case 0
  then show ?case by simp
next
  case (Suc k)
  have same: "walk_up r r n = n"
    by (simp add: walk_up.simps [of r r])
  show ?case
  proof (cases "r = 7 \<or> n < factor r")
    case True
    then show ?thesis
      using concise_stay [OF Suc.prems(1,2) True, of k p] Suc.prems(1,2) same by auto
  next
    case False
    let ?n' = "n / factor r"
    have r: "r < 7" "Suc r \<le> 7" "7 - Suc r < k"
      using False Suc.prems by arith+
    have f: "1 < factor r"
      using factor_gt_1 r(1) by blast
    have big: "factor r \<le> n"
      using False by simp
    have n': "1 \<le> ?n'"
      using big f by (simp add: le_divide_eq)
    have step: "concise (Suc k) n (JString (unit_at r)) p =
                  concise k ?n' (JString (unit_at (Suc r))) JUndefined"
      using concise_step_up [OF r(1) big, of k p] by simp
    from Suc.IH [OF r(2) n' r(3), of JUndefined]
    obtain r' where r': "Suc r \<le> r'" "r' \<le> 7"
      "concise k ?n' (JString (unit_at (Suc r))) JUndefined =
            Some (Inr \<lparr>d_duration = walk_up r' (Suc r) ?n', d_unit = unit_at r',
                        d_precision = (if r' = Suc r then precision_of JUndefined else 2),
                        d_abbr = True\<rparr>)"
      "1 \<le> walk_up r' (Suc r) ?n'" "r' = 7 \<or> walk_up r' (Suc r) ?n' < factor r'"
      by blast
    have p2: "(if r' = Suc r then precision_of JUndefined else 2) = 2"
      by simp
    have unfold: "walk_up r' r n = walk_up r' (Suc r) ?n'"
      using r'(1) by (simp add: walk_up.simps [of r' r])
    have ne: "r' \<noteq> r" using r'(1) by arith
    have res: "concise (Suc k) n (JString (unit_at r)) p =
            Some (Inr \<lparr>d_duration = walk_up r' r n, d_unit = unit_at r',
                        d_precision = (if r' = r then precision_of p else 2), d_abbr = True\<rparr>)"
      unfolding step r'(3) p2 unfold using ne by simp
    show ?thesis
    proof (rule exI [of _ r'], intro conjI)
      show "r \<le> r'" using r'(1) by arith
      show "r' \<le> 7" by (rule r'(2))
      show "concise (Suc k) n (JString (unit_at r)) p =
            Some (Inr \<lparr>d_duration = walk_up r' r n, d_unit = unit_at r',
                        d_precision = (if r' = r then precision_of p else 2), d_abbr = True\<rparr>)"
        by (rule res)
      show "1 \<le> walk_up r' r n" unfolding unfold by (rule r'(4))
      show "r' = 7 \<or> walk_up r' r n < factor r'" unfolding unfold by (rule r'(5))
    qed
  qed
qed

lemma concise_more_fuel:
  "concise k n u p = Some y \<Longrightarrow> concise (Suc k) n u p = Some y"
proof (induction k arbitrary: n u p)
  case 0
  then show ?case by simp
next
  case (Suc k)
  show ?case
  proof (cases "unitRef_or_hr u")
    case (Inl e)
    then have "concise (Suc j) n u p = Some (Inl e)" for j
      by simp
    with Suc.prems show ?thesis by metis
  next
    case (Inr ro)
    show ?thesis
    proof (cases ro)
      case None
      with Inr have "concise (Suc j) n u p = Some (Inl TypeError)" for j
        by simp
      with Suc.prems show ?thesis by metis
    next
      case (Some r)
      note rk = Inr [unfolded Some]
      consider (down) "n < 1" "0 < r"
        | (up) "\<not> n < 1" "factor r \<le> n" "\<not> length unitRefs - 1 \<le> r"
        | (stop) "\<not> (n < 1 \<and> 0 < r)"
                 "\<not> (\<not> n < 1 \<and> factor r \<le> n \<and> \<not> length unitRefs - 1 \<le> r)"
        by blast
      then show ?thesis
      proof cases
        case down
        show ?thesis
        proof (cases "convert n u (JString (unit_at (r - 1))) p")
          case (Inl e)
          with rk down have "concise (Suc j) n u p = Some (Inl e)" for j
            by simp
          with Suc.prems show ?thesis by metis
        next
          case (Inr prev)
          with rk down have
            "concise (Suc j) n u p = concise j (d_duration prev) (JString (d_unit prev)) p" for j
            by simp
          with Suc.prems Suc.IH show ?thesis by metis
        qed
      next
        case up
        show ?thesis
        proof (cases "convert n u (JString (unit_at (r + 1))) p")
          case (Inl e)
          with rk up have "concise (Suc j) n u p = Some (Inl e)" for j
            by simp
          with Suc.prems show ?thesis by metis
        next
          case (Inr nxt)
          with rk up have
            "concise (Suc j) n u p =
               concise j (d_duration nxt) (JString (d_unit nxt)) JUndefined" for j
            by simp
          with Suc.prems Suc.IH show ?thesis by metis
        qed
      next
        case stop
        have "concise (Suc j) n u p = concise (Suc 0) n u p" for j
          using rk stop by (auto simp: Let_def)
        with Suc.prems show ?thesis by metis
      qed
    qed
  qed
qed

lemma concise_fuel_add:
  "concise k n u p = Some y \<Longrightarrow> concise (k + j) n u p = Some y"
  by (induction j) (simp_all add: concise_more_fuel del: concise.simps)

lemma concise_own:
  assumes "map_of units s = Some us"
  shows "\<exists>r'\<le>7. (n < 1 \<longrightarrow> r' \<le> ref us) \<and> (1 \<le> n \<longrightarrow> ref us \<le> r') \<and> (n < 0 \<longrightarrow> r' = 0) \<and>
          (\<exists>v q. concise (Suc (if n < 1 then ref us else 7 - ref us)) n (JString s) p =
              Some (Inr \<lparr>d_duration = v, d_unit = unit_at r', d_precision = q, d_abbr = True\<rparr>) \<and>
            (n < 1 \<longrightarrow> v = walk_down r' (ref us) n \<and> q = precision_of p) \<and>
            (r' = 0 \<or> r' = 7 \<or> 1 \<le> v \<and> v < factor r'))"
proof -
  have r: "ref us \<le> 7" and s: "unit_at (ref us) = s"
    using unit_of_ref [OF assms] by simp_all
  show ?thesis
  proof (cases "n < 1")
    case True
    from concise_down [OF r True, of "Suc (ref us)" p]
    obtain r' where r': "r' \<le> ref us"
      "concise (Suc (ref us)) n (JString (unit_at (ref us))) p =
            Some (Inr \<lparr>d_duration = walk_down r' (ref us) n, d_unit = unit_at r',
                        d_precision = precision_of p, d_abbr = True\<rparr>)"
      "r' = 0 \<or> 1 \<le> walk_down r' (ref us) n" "walk_down r' (ref us) n < factor r'"
      "n < 0 \<longrightarrow> r' = 0"
      by auto
    have "r' \<le> 7" using r'(1) r by arith
    then show ?thesis
      using True r' unfolding s by (intro exI [of _ r']) auto
  next
    case False
    then have n: "1 \<le> n" by simp
    from concise_up [OF r n, of "Suc (7 - ref us)" p]
    obtain r' where r': "ref us \<le> r'" "r' \<le> 7"
      "concise (Suc (7 - ref us)) n (JString (unit_at (ref us))) p =
            Some (Inr \<lparr>d_duration = walk_up r' (ref us) n, d_unit = unit_at r',
                        d_precision = (if r' = ref us then precision_of p else 2),
                        d_abbr = True\<rparr>)"
      "1 \<le> walk_up r' (ref us) n" "r' = 7 \<or> walk_up r' (ref us) n < factor r'"
      by auto
    show ?thesis
      using False n r' unfolding s by (intro exI [of _ r']) auto
  qed
qed

lemma concise_8:
  assumes "concise (Suc b) n u p = Some y" and "b \<le> 7" and "8 \<le> k"
  shows "concise k n u p = Some y"
proof -
  have "k = Suc b + (k - Suc b)" using assms(2,3) by arith
  then show ?thesis
    using concise_fuel_add [OF assms(1), of "k - Suc b"] by simp
qed


section \<open>Claims about concise\<close>

text \<open>
  C2. For every non-negative \<open>n\<close> and valid unit \<open>s\<close>, \<^verbatim>\<open>concise(n, s, p)\<close> returns a
  Duration whose unit has rank 0 (millisecond), or rank 7 (year), or whose magnitude
  \<open>v\<close> satisfies \<open>1 \<le> v < next\<close> for the scale-table factor \<open>next\<close> of that unit. In
  particular \<^verbatim>\<open>concise(90, 'min')\<close> is 1.5 \<^verbatim>\<open>'hr'\<close>, \<^verbatim>\<open>concise(0.5, 'ms')\<close> is 0.5
  \<^verbatim>\<open>'ms'\<close> and \<^verbatim>\<open>concise(400, 'yr')\<close> is 400 \<^verbatim>\<open>'yr'\<close>.
\<close>

theorem concise_natural_range:
  assumes "map_of units s = Some us" and "0 \<le> n"
  shows "(\<exists>d ud. concise 8 n (JString s) p = Some (Inr d) \<and>
            map_of units (d_unit d) = Some ud \<and>
            (ref ud = 0 \<or> ref ud = 7 \<or> (1 \<le> d_duration d \<and> d_duration d < factor (ref ud)))) \<and>
         concise 8 90 (JString ''min'') JUndefined =
           Some (Inr \<lparr>d_duration = 3 / 2, d_unit = ''hr'', d_precision = 2, d_abbr = True\<rparr>) \<and>
         concise 8 (1 / 2) (JString ''ms'') JUndefined =
           Some (Inr \<lparr>d_duration = 1 / 2, d_unit = ''ms'', d_precision = 2, d_abbr = True\<rparr>) \<and>
         concise 8 400 (JString ''yr'') JUndefined =
           Some (Inr \<lparr>d_duration = 400, d_unit = ''yr'', d_precision = 2, d_abbr = True\<rparr>)"
proof (intro conjI)
  let ?b = "if n < 1 then ref us else 7 - ref us"
  have b: "?b \<le> 7"
    using unit_of_ref [OF assms(1)] by simp
  obtain r' v q where r': "r' \<le> 7"
    and run: "concise (Suc ?b) n (JString s) p =
              Some (Inr \<lparr>d_duration = v, d_unit = unit_at r', d_precision = q, d_abbr = True\<rparr>)"
    and range: "r' = 0 \<or> r' = 7 \<or> 1 \<le> v \<and> v < factor r'"
    using concise_own [OF assms(1), of n p] by blast
  obtain ud where ud: "map_of units (unit_at r') = Some ud" "ref ud = r'"
    using unit_at_own [OF r'] by blast
  have "concise 8 n (JString s) p =
          Some (Inr \<lparr>d_duration = v, d_unit = unit_at r', d_precision = q, d_abbr = True\<rparr>)"
    using concise_8 [OF run b] by simp
  then show "\<exists>d ud. concise 8 n (JString s) p = Some (Inr d) \<and>
            map_of units (d_unit d) = Some ud \<and>
            (ref ud = 0 \<or> ref ud = 7 \<or> (1 \<le> d_duration d \<and> d_duration d < factor (ref ud)))"
    using ud range by auto
  show "concise 8 90 (JString ''min'') JUndefined =
           Some (Inr \<lparr>d_duration = 3 / 2, d_unit = ''hr'', d_precision = 2, d_abbr = True\<rparr>)"
    by (simp add: eval_nat_numeral convert_def unitRef_or_hr_def unitRef_def units_def
        Object_prototype_keys_def walk_up.simps unitRefs_def toNumber_def
        Duration_def options_precision_def options_abbr_def)
  show "concise 8 (1 / 2) (JString ''ms'') JUndefined =
           Some (Inr \<lparr>d_duration = 1 / 2, d_unit = ''ms'', d_precision = 2, d_abbr = True\<rparr>)"
    by (simp add: eval_nat_numeral unitRef_or_hr_def unitRef_def units_def
        Object_prototype_keys_def unitRefs_def toNumber_def
        Duration_def options_precision_def options_abbr_def)
  show "concise 8 400 (JString ''yr'') JUndefined =
           Some (Inr \<lparr>d_duration = 400, d_unit = ''yr'', d_precision = 2, d_abbr = True\<rparr>)"
    by (simp add: eval_nat_numeral unitRef_or_hr_def unitRef_def units_def
        Object_prototype_keys_def unitRefs_def toNumber_def
        Duration_def options_precision_def options_abbr_def)
qed

theorem concise_natural_range_witness:
  "map_of units ''s'' = Some \<lparr>full = ''second'', abbr = ''s'', ref = 1\<rparr> \<and> (0::real) \<le> 7200 \<and>
   (\<exists>d ud. concise 8 7200 (JString ''s'') JUndefined = Some (Inr d) \<and>
      map_of units (d_unit d) = Some ud \<and>
      (ref ud = 0 \<or> ref ud = 7 \<or> (1 \<le> d_duration d \<and> d_duration d < factor (ref ud))))"
proof -
  have s: "map_of units ''s'' = Some \<lparr>full = ''second'', abbr = ''s'', ref = 1\<rparr>"
    by (simp add: units_def)
  have n: "(0::real) \<le> 7200"
    by simp
  from concise_natural_range [OF s n, of JUndefined] s n show ?thesis
    by blast
qed

text \<open>
  C3. For every non-negative \<open>n\<close> and valid unit \<open>s\<close> of rank \<open>r\<close>, the recursion of
  \<^verbatim>\<open>concise(n, s, p)\<close> returns: \<open>r + 1\<close> nested invocations suffice when \<open>n < 1\<close> (each
  recursive call is one rank finer) and \<open>7 - r + 1\<close> suffice otherwise (each recursive
  call is one rank coarser), the unit of the result lies on that side of \<open>s\<close>, and so 8
  invocations, the size of the unit table, always suffice; more fuel changes nothing.
\<close>

theorem concise_terminates_within_table:
  assumes "map_of units s = Some us" and "0 \<le> n"
  shows "\<exists>d ud. concise (Suc (if n < 1 then ref us else 7 - ref us)) n (JString s) p = Some (Inr d) \<and>
           map_of units (d_unit d) = Some ud \<and>
           (if n < 1 then ref ud \<le> ref us else ref us \<le> ref ud) \<and>
           (\<forall>k\<ge>8. concise k n (JString s) p = Some (Inr d))"
proof -
  let ?b = "if n < 1 then ref us else 7 - ref us"
  have b: "?b \<le> 7"
    using unit_of_ref [OF assms(1)] by simp
  obtain r' v q where r': "r' \<le> 7"
    and dir: "n < 1 \<longrightarrow> r' \<le> ref us" "1 \<le> n \<longrightarrow> ref us \<le> r'"
    and run: "concise (Suc ?b) n (JString s) p =
              Some (Inr \<lparr>d_duration = v, d_unit = unit_at r', d_precision = q, d_abbr = True\<rparr>)"
    using concise_own [OF assms(1), of n p] by blast
  obtain ud where ud: "map_of units (unit_at r') = Some ud" "ref ud = r'"
    using unit_at_own [OF r'] by blast
  have "\<forall>k\<ge>8. concise k n (JString s) p =
          Some (Inr \<lparr>d_duration = v, d_unit = unit_at r', d_precision = q, d_abbr = True\<rparr>)"
    using concise_8 [OF run b] by blast
  moreover have "if n < 1 then ref ud \<le> ref us else ref us \<le> ref ud"
    using dir ud(2) by simp
  ultimately show ?thesis
    using run ud(1) by (intro exI [of _ "\<lparr>d_duration = v, d_unit = unit_at r', d_precision = q, d_abbr = True\<rparr>"] exI [of _ ud]) simp
qed

theorem concise_terminates_within_table_witness:
  "map_of units ''min'' = Some \<lparr>full = ''minute'', abbr = ''min'', ref = 2\<rparr> \<and> (0::real) \<le> 90 \<and>
   (\<exists>d. concise 6 90 (JString ''min'') JUndefined = Some (Inr d) \<and>
        concise 8 90 (JString ''min'') JUndefined = Some (Inr d) \<and>
        concise 9 90 (JString ''min'') JUndefined = Some (Inr d))"
proof -
  have s: "map_of units ''min'' = Some \<lparr>full = ''minute'', abbr = ''min'', ref = 2\<rparr>"
    by (simp add: units_def)
  have n: "(0::real) \<le> 90"
    by simp
  have six: "Suc (if (90::real) < 1 then ref \<lparr>full = ''minute'', abbr = ''min'', ref = 2\<rparr>
                  else 7 - ref \<lparr>full = ''minute'', abbr = ''min'', ref = 2\<rparr>) = 6"
    by simp
  from concise_terminates_within_table [OF s n, of JUndefined] s n show ?thesis
    unfolding six by (metis le_refl numeral_le_iff semiring_norm(69, 73) eval_nat_numeral(3) le_SucI)
qed

text \<open>
  C10. For every negative \<open>n\<close> and valid unit \<open>s\<close>, \<^verbatim>\<open>concise(n, s, p)\<close> returns a
  Duration in milliseconds whose magnitude is that of \<^verbatim>\<open>convert(n, s, 'ms', p)\<close>, that
  is \<open>n\<close> multiplied by every scale factor below the rank of \<open>s\<close>.
\<close>

theorem concise_negative_reaches_ms:
  assumes "map_of units s = Some us" and "n < 0"
  shows "\<exists>d c. concise 8 n (JString s) p = Some (Inr d) \<and> d_unit d = ''ms'' \<and>
           convert n (JString s) (JString ''ms'') p = Inr c \<and>
           d_duration d = d_duration c \<and>
           d_duration d = foldl (\<lambda>a i. a * factor i) n (rev [0..<ref us])"
proof -
  have lt: "n < 1" using assms(2) by simp
  have b: "ref us \<le> 7"
    using unit_of_ref [OF assms(1)] by simp
  obtain r' v q where r0: "n < 0 \<longrightarrow> r' = 0"
    and run: "concise (Suc (if n < 1 then ref us else 7 - ref us)) n (JString s) p =
              Some (Inr \<lparr>d_duration = v, d_unit = unit_at r', d_precision = q, d_abbr = True\<rparr>)"
    and val: "n < 1 \<longrightarrow> v = walk_down r' (ref us) n \<and> q = precision_of p"
    using concise_own [OF assms(1), of n p] by blast
  have r': "r' = 0" and v: "v = walk_down 0 (ref us) n"
    using r0 val assms(2) lt by simp_all
  have ms: "map_of units ''ms'' = Some \<lparr>full = ''millisecond'', abbr = ''ms'', ref = 0\<rparr>"
    by (simp add: units_def)
  have name: "unit_at 0 = ''ms''"
    by (simp add: unitRefs_def)
  have run8: "concise 8 n (JString s) p =
              Some (Inr \<lparr>d_duration = v, d_unit = ''ms'', d_precision = q, d_abbr = True\<rparr>)"
    using concise_8 [of "ref us" n "JString s" p _ 8] run lt b r' name by simp
  have same: "walk_down 0 0 n = n"
    by (simp add: walk_down.simps [of 0 0])
  have conv: "d_duration (projr (convert n (JString s) (JString ''ms'') p)) = v"
             "\<exists>c. convert n (JString s) (JString ''ms'') p = Inr c"
    unfolding convert_own [OF assms(1) ms] v using same by simp_all
  then obtain c where c: "convert n (JString s) (JString ''ms'') p = Inr c"
    by blast
  with conv(1) have "d_duration c = v" by simp
  then show ?thesis
    using run8 c v walk_down_foldl [of 0 "ref us" n] by simp
qed

theorem concise_negative_reaches_ms_witness:
  "map_of units ''s'' = Some \<lparr>full = ''second'', abbr = ''s'', ref = 1\<rparr> \<and> (- 2::real) < 0 \<and>
   (\<exists>d. concise 8 (- 2) (JString ''s'') JUndefined = Some (Inr d) \<and> d_unit d = ''ms'' \<and>
        d_duration d = - 2000)"
proof -
  have s: "map_of units ''s'' = Some \<lparr>full = ''second'', abbr = ''s'', ref = 1\<rparr>"
    by (simp add: units_def)
  have n: "(- 2::real) < 0"
    by simp
  from concise_negative_reaches_ms [OF s n, of JUndefined] s n show ?thesis
    by (auto simp: unitRefs_def toNumber_def)
qed

text \<open>
  C5. \<^verbatim>\<open>concise(90, 'min', 5)\<close> converts to hours and recurses without passing \<open>p\<close>
  on, so the Duration it returns carries the default precision 2, not the requested 5.
\<close>

theorem concise_drops_precision_when_coarsening:
  "concise 8 90 (JString ''min'') (JNumber 5) =
     Some (Inr \<lparr>d_duration = 3 / 2, d_unit = ''hr'', d_precision = 2, d_abbr = True\<rparr>)"
  by (simp add: eval_nat_numeral convert_def unitRef_or_hr_def unitRef_def units_def
      Object_prototype_keys_def walk_up.simps unitRefs_def toNumber_def
      Duration_def options_precision_def options_abbr_def)

section \<open>Unrecognised unit names\<close>

lemma unitRef_or_hr_fallback:
  "\<not> in_units u \<Longrightarrow> unitRef_or_hr u = unitRef_or_hr (JString ''hr'')"
proof -
  assume "\<not> in_units u"
  moreover have "in_units (JString ''hr'')"
    by (simp add: units_def)
  ultimately show ?thesis
    by (cases u) (simp_all add: unitRef_or_hr_def)
qed

lemma convert_fallback_from:
  assumes "\<not> in_units u"
  shows "convert n u t p = convert n (JString ''hr'') t p"
  unfolding convert_def unitRef_or_hr_fallback [OF assms] by (rule refl)

lemma convert_fallback_to:
  assumes "\<not> in_units t"
  shows "convert n u t p = convert n u (JString ''hr'') p"
  unfolding convert_def unitRef_or_hr_fallback [OF assms] by (rule refl)

lemma convert_bogus_unit:
  "convert 5 (JString ''bogus-unit'') (JString ''min'') p =
   convert 5 (JString ''hr'') (JString ''min'') p"
  by (rule convert_fallback_from) (simp add: units_def Object_prototype_keys_def)

text \<open>
  C7. A unit argument that is not a property of \<^verbatim>\<open>units\<close> at all is treated as
  \<^verbatim>\<open>'hr'\<close> (the three lemmas above), but the test \<^verbatim>\<open>from in units\<close> also accepts
  the names \<^verbatim>\<open>units\<close> inherits from \<^verbatim>\<open>Object.prototype\<close>. For such a name the rank
  is \<^verbatim>\<open>undefined\<close>: \<^verbatim>\<open>convert(5, 'hr', 'constructor')\<close> and
  \<^verbatim>\<open>concise(5, 'constructor')\<close> throw a TypeError, and
  \<^verbatim>\<open>convert(5, 'constructor', 'min')\<close> returns 5 minutes where
  \<^verbatim>\<open>convert(5, 'hr', 'min')\<close> returns 300.
\<close>

theorem convert_inherited_name_not_hour:
  "convert 5 (JString ''hr'') (JString ''constructor'') JUndefined = Inl TypeError \<and>
   concise 8 5 (JString ''constructor'') JUndefined = Some (Inl TypeError) \<and>
   convert 5 (JString ''constructor'') (JString ''min'') JUndefined =
     Inr \<lparr>d_duration = 5, d_unit = ''min'', d_precision = 2, d_abbr = True\<rparr> \<and>
   convert 5 (JString ''hr'') (JString ''min'') JUndefined =
     Inr \<lparr>d_duration = 300, d_unit = ''min'', d_precision = 2, d_abbr = True\<rparr>"
proof (intro conjI)
  show "convert 5 (JString ''hr'') (JString ''constructor'') JUndefined = Inl TypeError"
    by (simp add: convert_def unitRef_or_hr_def unitRef_def units_def Object_prototype_keys_def)
  show "concise 8 5 (JString ''constructor'') JUndefined = Some (Inl TypeError)"
    by (simp add: eval_nat_numeral unitRef_or_hr_def unitRef_def units_def
        Object_prototype_keys_def)
  show "convert 5 (JString ''constructor'') (JString ''min'') JUndefined =
     Inr \<lparr>d_duration = 5, d_unit = ''min'', d_precision = 2, d_abbr = True\<rparr>"
    by (simp add: convert_def unitRef_or_hr_def unitRef_def units_def Object_prototype_keys_def
        unitRefs_def Duration_def options_precision_def options_abbr_def)
  show "convert 5 (JString ''hr'') (JString ''min'') JUndefined =
     Inr \<lparr>d_duration = 300, d_unit = ''min'', d_precision = 2, d_abbr = True\<rparr>"
    by (simp add: convert_def unitRef_or_hr_def unitRef_def units_def Object_prototype_keys_def
        walk_down.simps toNumber_def unitRefs_def Duration_def options_precision_def
        options_abbr_def)
qed

section \<open>Rendering\<close>

text \<open>
  C9. For a Duration whose unit is one of the eight units, \<^verbatim>\<open>toString(sep)\<close> is the
  rendered magnitude, then \<open>sep\<close> (a single space unless \<open>sep\<close> is a string), then the
  abbreviated or full unit name according to the abbreviation flag, with an \<^verbatim>\<open>s\<close>
  appended unless the name already ends in one, whatever the magnitude. In particular
  \<^verbatim>\<open>new Duration(1, 'day').to('hr').toString()\<close> is the rendering of 24 followed by
  \<^verbatim>\<open>" hrs"\<close>, and a magnitude of 1 is followed by \<^verbatim>\<open>" hrs"\<close> as well.
\<close>

theorem toString_pluralizes_unconditionally:
  assumes "map_of units (d_unit d) = Some u"
  shows "toString num2str sep d =
           Inr (num2str (d_duration d) @ (case sep of JString x \<Rightarrow> x | _ \<Rightarrow> '' '') @
                (let nm = (if d_abbr d then abbr u else full u)
                 in if nm \<noteq> [] \<and> last nm = CHR ''s'' then nm else nm @ ''s'')) \<and>
         (\<exists>h. Duration_to (Duration (JNumber 1) (JString ''day'') None) (JString ''hr'') = Inr h \<and>
              toString num2str JUndefined h = Inr (num2str 24 @ '' hrs'')) \<and>
         toString num2str JUndefined (Duration (JNumber 1) (JString ''hr'') None) =
           Inr (num2str 1 @ '' hrs'')"
proof (intro conjI)
  show "toString num2str sep d =
           Inr (num2str (d_duration d) @ (case sep of JString x \<Rightarrow> x | _ \<Rightarrow> '' '') @
                (let nm = (if d_abbr d then abbr u else full u)
                 in if nm \<noteq> [] \<and> last nm = CHR ''s'' then nm else nm @ ''s''))"
    using assms by (simp add: toString_def pluralize_def Let_def)
  have "Duration_to (Duration (JNumber 1) (JString ''day'') None) (JString ''hr'') =
          Inr \<lparr>d_duration = 24, d_unit = ''hr'', d_precision = 2, d_abbr = True\<rparr>"
    by (simp add: Duration_to_def abbr_set_def convert_def unitRef_or_hr_def unitRef_def
        units_def Object_prototype_keys_def walk_down.simps toNumber_def unitRefs_def
        Duration_def options_precision_def options_abbr_def)
  moreover have "toString num2str JUndefined
          \<lparr>d_duration = 24, d_unit = ''hr'', d_precision = 2, d_abbr = True\<rparr> =
            Inr (num2str 24 @ '' hrs'')"
    by (simp add: toString_def pluralize_def units_def)
  ultimately show "\<exists>h. Duration_to (Duration (JNumber 1) (JString ''day'') None) (JString ''hr'') = Inr h \<and>
              toString num2str JUndefined h = Inr (num2str 24 @ '' hrs'')"
    by simp
  show "toString num2str JUndefined (Duration (JNumber 1) (JString ''hr'') None) =
           Inr (num2str 1 @ '' hrs'')"
    by (simp add: toString_def pluralize_def units_def Duration_def options_precision_def
        options_abbr_def)
qed

theorem toString_pluralizes_unconditionally_witness:
  "map_of units (d_unit \<lparr>d_duration = 24, d_unit = ''hr'', d_precision = 2, d_abbr = True\<rparr>) =
     Some \<lparr>full = ''hour'', abbr = ''hr'', ref = 3\<rparr> \<and>
   toString integral_toString JUndefined
     \<lparr>d_duration = 24, d_unit = ''hr'', d_precision = 2, d_abbr = True\<rparr> = Inr ''24 hrs'' \<and>
   toString integral_toString (JString '':'')
     \<lparr>d_duration = 1, d_unit = ''s'', d_precision = 2, d_abbr = False\<rparr> = Inr ''1:seconds'' \<and>
   toString integral_toString JUndefined
     \<lparr>d_duration = - 1, d_unit = ''s'', d_precision = 2, d_abbr = True\<rparr> = Inr ''-1 s''"
proof -
  have u: "map_of units (d_unit \<lparr>d_duration = 24, d_unit = ''hr'', d_precision = 2, d_abbr = True\<rparr>) =
     Some \<lparr>full = ''hour'', abbr = ''hr'', ref = 3\<rparr>"
    by (simp add: units_def)
  have s: "map_of units (d_unit \<lparr>d_duration = 1, d_unit = ''s'', d_precision = 2, d_abbr = False\<rparr>) =
     Some \<lparr>full = ''second'', abbr = ''s'', ref = 1\<rparr>"
    by (simp add: units_def)
  have s': "map_of units (d_unit \<lparr>d_duration = - 1, d_unit = ''s'', d_precision = 2, d_abbr = True\<rparr>) =
     Some \<lparr>full = ''second'', abbr = ''s'', ref = 1\<rparr>"
    by (simp add: units_def)
  from toString_pluralizes_unconditionally [OF u, of integral_toString JUndefined]
       toString_pluralizes_unconditionally [OF s, of integral_toString "JString '':''"]
       toString_pluralizes_unconditionally [OF s', of integral_toString JUndefined]
       u
  show ?thesis
    by (simp add: integral_toString_def decimal.simps)
qed

section \<open>A conversion and its inverse in exact arithmetic\<close>

text \<open>
  Every factor used between two ranks is non-zero, so on the reals the two walks undo
  each other: converting to another unit and back returns the original magnitude.
\<close>

lemma foldl_times: "foldl (\<lambda>a i. a * g i) n xs = n * prod_list (map g xs)" for n :: real
  by (induction xs arbitrary: n) (simp_all add: mult.assoc)

lemma foldl_divide: "foldl (\<lambda>a i. a / g i) n xs = n / prod_list (map g xs)" for n :: real
  by (induction xs arbitrary: n) simp_all

lemma factors_nonzero: "cu \<le> 7 \<Longrightarrow> prod_list (map factor [du..<cu]) \<noteq> 0"
proof -
  assume "cu \<le> 7"
  have "factor i \<noteq> 0" if "i \<in> set [du..<cu]" for i
  proof -
    have "i < 7" using that \<open>cu \<le> 7\<close> by simp
    from factor_gt_1 [OF this] show ?thesis by simp
  qed
  then have "\<forall>i\<in>set [du..<cu]. factor i \<noteq> 0"
    by blast
  then show ?thesis
    by (simp add: prod_list_zero_iff image_iff)
qed

lemma walk_up_walk_down: "cu \<le> 7 \<Longrightarrow> walk_up cu du (walk_down du cu n) = n"
  using factors_nonzero [of cu du]
  by (simp add: walk_up_foldl walk_down_foldl foldl_times foldl_divide rev_map [symmetric]
      del: rev_map)

lemma walk_down_walk_up: "cu \<le> 7 \<Longrightarrow> walk_down du cu (walk_up cu du n) = n"
  using factors_nonzero [of cu du]
  by (simp add: walk_up_foldl walk_down_foldl foldl_times foldl_divide rev_map [symmetric]
      del: rev_map)

lemma convert_round_trip_exact:
  assumes "map_of units f = Some uf" and "map_of units t = Some ut"
  shows "\<exists>c b. convert n (JString f) (JString t) p = Inr c \<and>
               convert (d_duration c) (JString t) (JString f) p = Inr b \<and>
               d_duration b = n"
proof -
  have "ref uf \<le> 7" "ref ut \<le> 7"
    using assms unit_of_ref by blast+
  then show ?thesis
    unfolding convert_own [OF assms] convert_own [OF assms(2,1)]
    by (simp add: walk_up_walk_down walk_down_walk_up)
qed

section \<open>Rounding to a double\<close>

lemma pow2_powr: "pow2 e = 2 powr of_int e"
  by (simp add: pow2_def powr_real_of_int inverse_eq_divide)

lemma pow2_pos: "0 < pow2 e"
  by (simp add: pow2_powr)

lemma pow2_add: "pow2 (a + b) = pow2 a * pow2 b"
  by (simp add: pow2_powr powr_add)

lemma pow2_mono: "a \<le> b \<Longrightarrow> pow2 a \<le> pow2 b"
  by (simp add: pow2_powr)

lemma round_even_error: "\<bar>of_int (round_even y) - y\<bar> \<le> 1 / 2"
  unfolding round_even_def Let_def by (auto; linarith)

lemma round_even_of_int: "round_even (of_int z) = z"
  by (simp add: round_even_def)

lemma floor_log2_eqI:
  assumes "pow2 k \<le> a" and "a < pow2 (k + 1)"
  shows "\<lfloor>log 2 a\<rfloor> = k"
proof -
  have "0 < a" using assms(1) pow2_pos [of k] by linarith
  then show ?thesis
    using assms by (simp add: floor_log_eq_powr_iff pow2_powr)
qed

lemma pow2_floor_log2_le:
  assumes "0 < a"
  shows "pow2 \<lfloor>log 2 a\<rfloor> \<le> a"
proof -
  have "2 powr of_int \<lfloor>log 2 a\<rfloor> \<le> 2 powr log 2 a"
    by (simp add: powr_le_cancel_iff)
  then show ?thesis using assms by (simp add: pow2_powr)
qed

lemma fl_eval:
  assumes "pow2 k \<le> \<bar>x\<bar>" and "\<bar>x\<bar> < pow2 (k + 1)" and "- 1022 \<le> k"
  shows "fl x = of_int (round_even (x / pow2 (k - 52))) * pow2 (k - 52)"
proof -
  have "x \<noteq> 0" using assms(1) pow2_pos [of k] by auto
  moreover have "\<lfloor>log 2 \<bar>x\<bar>\<rfloor> = k" using assms(1,2) by (rule floor_log2_eqI)
  ultimately show ?thesis using assms(3) by (simp add: fl_def Let_def)
qed

lemma abs_scaled_diff:
  fixes a x c :: real
  assumes "0 < c"
  shows "\<bar>a * c - x\<bar> = \<bar>a - x / c\<bar> * c"
proof -
  have "a * c - x = (a - x / c) * c"
    using assms by (simp add: field_simps)
  then show ?thesis
    using assms by (simp add: abs_mult)
qed

lemma fl_relative_error:
  assumes "pow2 (- 1022) \<le> \<bar>x\<bar>"
  shows "\<bar>fl x - x\<bar> \<le> \<bar>x\<bar> / 2 ^ 53"
proof -
  let ?L = "\<lfloor>log 2 \<bar>x\<bar>\<rfloor>"
  let ?e = "?L - 52"
  have pos: "0 < \<bar>x\<bar>" using assms pow2_pos [of "- 1022"] by linarith
  then have nz: "x \<noteq> 0" by simp
  have "2 powr of_int (- 1022) \<le> \<bar>x\<bar>" using assms by (simp add: pow2_powr)
  then have "of_int (- 1022) \<le> log 2 \<bar>x\<bar>"
    using pos by (simp add: le_log_iff)
  then have L: "- 1022 \<le> ?L" by (simp add: le_floor_iff)
  then have "max ?L (- 1022) = ?L" by simp
  then have fl: "fl x = of_int (round_even (x / pow2 ?e)) * pow2 ?e"
    using nz unfolding fl_def Let_def by simp
  have e: "pow2 ?e * 2 ^ 52 = pow2 ?L"
    using pow2_add [of ?e 52] by (simp add: pow2_def)
  have "\<bar>fl x - x\<bar> = \<bar>of_int (round_even (x / pow2 ?e)) - x / pow2 ?e\<bar> * pow2 ?e"
    unfolding fl by (rule abs_scaled_diff) (rule pow2_pos)
  also have "\<dots> \<le> 1 / 2 * pow2 ?e"
    using round_even_error [of "x / pow2 ?e"] pow2_pos [of ?e]
    by (simp add: mult_right_mono)
  also have "\<dots> = pow2 ?L / 2 ^ 53"
    using e by simp
  also have "\<dots> \<le> \<bar>x\<bar> / 2 ^ 53"
    using pow2_floor_log2_le [OF pos] by (simp add: divide_right_mono)
  finally show ?thesis .
qed

lemma fl_1e23: "fl 100000000000000000000000 = 99999999999999991611392"
proof -
  have "fl 100000000000000000000000 = of_int (round_even (100000000000000000000000 / pow2 (76 - 52))) * pow2 (76 - 52)"
    by (rule fl_eval) (simp_all add: pow2_def)
  also have "\<dots> = 99999999999999991611392"
    by (simp add: pow2_def round_even_def)
  finally show ?thesis .
qed

lemma fl_back: "fl (99999999999999991611392 / 1000) = 99999999999999983616"
proof -
  have "fl (99999999999999991611392 / 1000) =
      of_int (round_even (99999999999999991611392 / 1000 / pow2 (66 - 52))) * pow2 (66 - 52)"
    by (rule fl_eval) (simp_all add: pow2_def)
  also have "\<dots> = 99999999999999983616"
    by (simp add: pow2_def round_even_def)
  finally show ?thesis .
qed

section \<open>A conversion and its inverse on doubles\<close>

lemma pow2_1024: "pow2 1024 = 2 ^ 1024"
  by (simp add: pow2_def)

lemma pow2_m1022: "pow2 (- 1022) = 1 / 2 ^ 1022"
  by (simp add: pow2_def)

lemma err_le:
  assumes "k \<le> 14"
  shows "(1 + 1 / 2 ^ 53) ^ k - 1 \<le> (1 / 2 ^ 49 :: real)"
proof -
  have "(1 + 1 / 2 ^ 53 :: real) ^ k \<le> (1 + 1 / 2 ^ 53) ^ 14"
    using assms by (intro power_increasing) simp_all
  also have "\<dots> \<le> 1 + 1 / 2 ^ 49"
    by (simp add: power_divide)
  finally show ?thesis by simp
qed

lemma to_double_step:
  fixes x z :: real and k :: nat
  assumes k: "k \<le> 14"
    and lo: "1 / 2 ^ 1000 \<le> \<bar>z\<bar>" and hi: "\<bar>z\<bar> \<le> 2 ^ 1000"
    and close: "\<bar>x - z\<bar> \<le> ((1 + 1 / 2 ^ 53) ^ k - 1) * \<bar>z\<bar>"
  shows "to_double x = Number (fl x) \<and>
         \<bar>fl x - z\<bar> \<le> ((1 + 1 / 2 ^ 53) ^ Suc k - 1) * \<bar>z\<bar>"
proof -
  define u :: real where "u = 1 / 2 ^ 53"
  define e :: real where "e = (1 + u) ^ k - 1"
  have u: "0 < u" "u \<le> 1"
    by (simp_all add: u_def)
  have e0: "0 \<le> e"
    using u by (simp add: e_def)
  have e1: "e \<le> 1 / 2 ^ 49"
    using err_le [OF k] by (simp add: e_def u_def)
  then have e2: "e \<le> 1 / 2"
    by simp
  have z0: "0 \<le> \<bar>z\<bar>"
    by simp
  have close': "\<bar>x - z\<bar> \<le> e * \<bar>z\<bar>"
    using close by (simp add: e_def u_def)
  have ez: "e * \<bar>z\<bar> \<le> \<bar>z\<bar> / 2"
    using mult_right_mono [OF e2 z0] by simp
  have "\<bar>x\<bar> \<le> \<bar>z\<bar> + e * \<bar>z\<bar>"
    using close' by linarith
  then have x_hi: "\<bar>x\<bar> \<le> (1 + e) * \<bar>z\<bar>"
    by (simp add: distrib_right)
  have x_lo: "\<bar>z\<bar> / 2 \<le> \<bar>x\<bar>"
    using close' ez by linarith
  have "(1 / 2 ^ 1022 :: real) \<le> 1 / 2 ^ 1000 / 2"
    by simp
  also have "\<dots> \<le> \<bar>z\<bar> / 2"
    using lo by simp
  finally have norm: "pow2 (- 1022) \<le> \<bar>x\<bar>"
    using x_lo by (simp add: pow2_m1022)
  have rel: "\<bar>fl x - x\<bar> \<le> u * \<bar>x\<bar>"
    using fl_relative_error [OF norm] by (simp add: u_def)
  have ux: "u * \<bar>x\<bar> \<le> u * ((1 + e) * \<bar>z\<bar>)"
    using x_hi u(1) by (simp add: mult_left_mono)
  have "\<bar>fl x - z\<bar> \<le> \<bar>fl x - x\<bar> + \<bar>x - z\<bar>"
    by linarith
  also have "\<dots> \<le> u * ((1 + e) * \<bar>z\<bar>) + e * \<bar>z\<bar>"
    using rel ux close' by linarith
  also have "\<dots> = ((1 + u) ^ Suc k - 1) * \<bar>z\<bar>"
    by (simp add: e_def algebra_simps)
  finally have bound: "\<bar>fl x - z\<bar> \<le> ((1 + 1 / 2 ^ 53) ^ Suc k - 1) * \<bar>z\<bar>"
    by (simp add: u_def)
  have "u * \<bar>x\<bar> \<le> \<bar>x\<bar>"
    using u(2) mult_right_mono [of u 1 "\<bar>x\<bar>"] by simp
  then have "\<bar>fl x\<bar> \<le> 2 * \<bar>x\<bar>"
    using rel by linarith
  also have "\<dots> \<le> 2 * ((1 + e) * \<bar>z\<bar>)"
    using x_hi by simp
  also have "\<dots> \<le> 2 * (2 * \<bar>z\<bar>)"
    using e2 mult_right_mono [of "1 + e" 2 "\<bar>z\<bar>"] by (simp add: mult.commute)
  also have "\<dots> \<le> 4 * 2 ^ 1000"
    using hi by simp
  also have "\<dots> < pow2 1024"
    by (simp add: pow2_1024)
  finally have "\<bar>fl x\<bar> < pow2 1024" .
  then have "to_double x = Number (fl x)"
    by (simp add: to_double_def Let_def abs_less_iff not_le)
  with bound show ?thesis by simp
qed

lemma pow2_m1022_le_1: "pow2 (- 1022) \<le> 1"
  by (simp add: pow2_m1022)

lemma factor_fl_range:
  assumes "i < 7"
  shows "1 \<le> factor_fl i \<and> factor_fl i \<le> 1024"
proof -
  let ?f = "toNumber (nextf (unitRefs ! i))"
  have "i = 0 \<or> i = 1 \<or> i = 2 \<or> i = 3 \<or> i = 4 \<or> i = 5 \<or> i = 6"
    using assms by arith
  then have f: "4 \<le> ?f" "?f \<le> 1000"
    by (auto simp: unitRefs_def toNumber_def)
  then have a: "\<bar>?f\<bar> = ?f"
    by simp
  have "pow2 (- 1022) \<le> \<bar>?f\<bar>"
    using f(1) pow2_m1022_le_1 by linarith
  from fl_relative_error [OF this] have "\<bar>fl ?f - ?f\<bar> \<le> ?f / 2 ^ 53"
    unfolding a .
  moreover have "?f / 2 ^ 53 \<le> 1"
    using f(2) by simp
  ultimately show ?thesis
    unfolding factor_fl_def using f by linarith
qed

lemma to_double_0: "to_double 0 = Number 0"
  by (simp add: to_double_def fl_def pow2_def)

lemma walk_down_fl_0: "walk_down_fl du cu (Number 0) = Number 0"
proof (induction cu)
  case 0
  show ?case by (simp add: walk_down_fl.simps [of du 0])
next
  case (Suc cu)
  then show ?case
    by (simp add: walk_down_fl.simps [of du "Suc cu"] to_double_0)
qed

lemma walk_up_fl_0: "du \<le> 7 \<Longrightarrow> walk_up_fl du cu (Number 0) = Number 0"
proof (induction "du - cu" arbitrary: cu)
  case 0
  then show ?case by (simp add: walk_up_fl.simps [of du cu])
next
  case (Suc d)
  then have d: "d = du - Suc cu" and "cu < 7" by arith+
  then have "factor_fl cu \<noteq> 0"
    using factor_fl_range [of cu] by auto
  with Suc(1) [OF d Suc(3)] Suc(2) show ?case
    by (simp add: walk_up_fl.simps [of du cu] to_double_0)
qed

lemma window_times:
  fixes z f :: real
  assumes "1 / 2 ^ m \<le> \<bar>z\<bar>" and "\<bar>z\<bar> \<le> 2 ^ m" and "1 \<le> f" and "f \<le> 1024"
  shows "1 / 2 ^ (m + 10) \<le> \<bar>z * f\<bar> \<and> \<bar>z * f\<bar> \<le> 2 ^ (m + 10)"
proof -
  have f: "\<bar>f\<bar> = f" "0 \<le> f" using assms(3) by simp_all
  have "\<bar>z\<bar> * 1 \<le> \<bar>z\<bar> * f"
    using assms(3) by (intro mult_left_mono) simp_all
  moreover have "(1 / 2 ^ (m + 10) :: real) \<le> 1 / 2 ^ m"
    by (simp add: power_add field_simps)
  ultimately have lo: "1 / 2 ^ (m + 10) \<le> \<bar>z\<bar> * f"
    using assms(1) by linarith
  have "\<bar>z\<bar> * f \<le> 2 ^ m * 1024"
    using assms(2,4) f(2) by (intro mult_mono) simp_all
  then have hi: "\<bar>z\<bar> * f \<le> 2 ^ (m + 10)"
    by (simp add: power_add)
  show ?thesis
    using lo hi by (simp add: abs_mult f(1))
qed

lemma window_divide:
  fixes z f :: real
  assumes "1 / 2 ^ m \<le> \<bar>z\<bar>" and "\<bar>z\<bar> \<le> 2 ^ m" and "1 \<le> f" and "f \<le> 1024"
  shows "1 / 2 ^ (m + 10) \<le> \<bar>z / f\<bar> \<and> \<bar>z / f\<bar> \<le> 2 ^ (m + 10)"
proof -
  have f: "\<bar>f\<bar> = f" "0 < f" using assms(3) by simp_all
  have "1 / 2 ^ m / 1024 \<le> \<bar>z\<bar> / f"
    using assms(1,4) f(2) by (intro frac_le) simp_all
  then have lo: "1 / 2 ^ (m + 10) \<le> \<bar>z\<bar> / f"
    by (simp add: power_add)
  have "\<bar>z\<bar> / f \<le> \<bar>z\<bar> / 1"
    using assms(3) by (intro divide_left_mono) simp_all
  moreover have "(2 ^ m :: real) \<le> 2 ^ (m + 10)"
    by simp
  ultimately have hi: "\<bar>z\<bar> / f \<le> 2 ^ (m + 10)"
    using assms(2) by linarith
  show ?thesis
    using lo hi by (simp add: f(1))
qed

lemma window_weaken:
  fixes z :: real
  assumes "1 / 2 ^ m \<le> \<bar>z\<bar>" and "\<bar>z\<bar> \<le> 2 ^ m" and "m \<le> 1000"
  shows "1 / 2 ^ 1000 \<le> \<bar>z\<bar> \<and> \<bar>z\<bar> \<le> 2 ^ 1000"
proof -
  have "(2::real) ^ m \<le> 2 ^ 1000"
    using assms(3) by (intro power_increasing) simp_all
  moreover from this have "(1 / 2 ^ 1000 :: real) \<le> 1 / 2 ^ m"
    by (intro divide_left_mono) simp_all
  ultimately show ?thesis
    using assms(1,2) by linarith
qed

lemma walk_down_fl_done: "cu \<le> du \<Longrightarrow> walk_down_fl du cu n = n"
  by (simp add: walk_down_fl.simps [of du cu])

lemma walk_up_fl_done: "du \<le> cu \<Longrightarrow> walk_up_fl du cu n = n"
  by (simp add: walk_up_fl.simps [of du cu])

lemma walk_down_fl_err:
  "cu \<le> 7 \<Longrightarrow> du \<le> cu \<Longrightarrow> k + (cu - du) \<le> 14 \<Longrightarrow> m + 10 * (cu - du) \<le> 1000 \<Longrightarrow>
   1 / 2 ^ m \<le> \<bar>z\<bar> \<Longrightarrow> \<bar>z\<bar> \<le> 2 ^ m \<Longrightarrow> \<bar>v - z\<bar> \<le> err k * \<bar>z\<bar> \<Longrightarrow>
   \<exists>v'. walk_down_fl du cu (Number v) = Number v' \<and>
        \<bar>v' - z * factors_fl du cu\<bar> \<le> err (k + (cu - du)) * \<bar>z * factors_fl du cu\<bar> \<and>
        1 / 2 ^ (m + 10 * (cu - du)) \<le> \<bar>z * factors_fl du cu\<bar> \<and>
        \<bar>z * factors_fl du cu\<bar> \<le> 2 ^ (m + 10 * (cu - du))"
proof (induction cu arbitrary: v z k m)
  case 0
  then show ?case
    by (simp add: walk_down_fl_done)
next
  case (Suc c)
  show ?case
  proof (cases "du = Suc c")
    case True
    with Suc.prems show ?thesis
      by (simp add: walk_down_fl_done)
  next
    case False
    then have du: "du \<le> c" "du < Suc c" and c: "c < 7" "c \<le> 7"
      using Suc.prems(1,2) by arith+
    let ?f = "factor_fl c"
    have f: "1 \<le> ?f" "?f \<le> 1024"
      using factor_fl_range [OF c(1)] by simp_all
    then have fabs: "\<bar>?f\<bar> = ?f" by simp
    have steps: "Suc c - du = Suc (c - du)"
      using du(1) by arith
    have k: "k \<le> 14" "Suc k + (c - du) \<le> 14"
      using Suc.prems(3) steps by arith+
    have m: "m + 10 \<le> 1000" "m + 10 + 10 * (c - du) \<le> 1000"
      using Suc.prems(4) steps by arith+
    have win: "1 / 2 ^ (m + 10) \<le> \<bar>z * ?f\<bar>" "\<bar>z * ?f\<bar> \<le> 2 ^ (m + 10)"
      using window_times [OF Suc.prems(5,6) f] by simp_all
    have win': "1 / 2 ^ 1000 \<le> \<bar>z * ?f\<bar>" "\<bar>z * ?f\<bar> \<le> 2 ^ 1000"
      using window_weaken [OF win m(1)] by simp_all
    have "\<bar>v * ?f - z * ?f\<bar> = \<bar>v - z\<bar> * ?f"
      by (simp add: left_diff_distrib [symmetric] abs_mult fabs)
    also have "\<dots> \<le> err k * \<bar>z\<bar> * ?f"
      using Suc.prems(7) f(1) by (intro mult_right_mono) simp_all
    also have "\<dots> = err k * \<bar>z * ?f\<bar>"
      by (simp add: abs_mult fabs)
    finally have close: "\<bar>v * ?f - z * ?f\<bar> \<le> err k * \<bar>z * ?f\<bar>" .
    from to_double_step [OF k(1) win' close]
    have td: "to_double (v * ?f) = Number (fl (v * ?f))"
      and close': "\<bar>fl (v * ?f) - z * ?f\<bar> \<le> err (Suc k) * \<bar>z * ?f\<bar>"
      by simp_all
    from Suc.IH [OF c(2) du(1) k(2) m(2) win close']
    obtain v' where v': "walk_down_fl du c (Number (fl (v * ?f))) = Number v'"
      "\<bar>v' - z * ?f * factors_fl du c\<bar> \<le> err (Suc k + (c - du)) * \<bar>z * ?f * factors_fl du c\<bar>"
      "1 / 2 ^ (m + 10 + 10 * (c - du)) \<le> \<bar>z * ?f * factors_fl du c\<bar>"
      "\<bar>z * ?f * factors_fl du c\<bar> \<le> 2 ^ (m + 10 + 10 * (c - du))"
      by blast
    have prod: "z * factors_fl du (Suc c) = z * ?f * factors_fl du c"
      using du(1) by simp
    have e1: "k + (Suc c - du) = Suc k + (c - du)"
      using steps by simp
    have e2: "m + 10 * (Suc c - du) = m + 10 + 10 * (c - du)"
      using steps by simp
    have "walk_down_fl du (Suc c) (Number v) = Number v'"
      using du(2) td v'(1) by (simp add: walk_down_fl.simps [of du "Suc c"])
    then show ?thesis
      unfolding prod e1 e2 using v'(2,3,4) by blast
  qed
qed

lemma walk_up_fl_err:
  "du \<le> 7 \<Longrightarrow> cu \<le> du \<Longrightarrow> k + (du - cu) \<le> 14 \<Longrightarrow> m + 10 * (du - cu) \<le> 1000 \<Longrightarrow>
   1 / 2 ^ m \<le> \<bar>z\<bar> \<Longrightarrow> \<bar>z\<bar> \<le> 2 ^ m \<Longrightarrow> \<bar>v - z\<bar> \<le> err k * \<bar>z\<bar> \<Longrightarrow>
   \<exists>v'. walk_up_fl du cu (Number v) = Number v' \<and>
        \<bar>v' - z / factors_fl cu du\<bar> \<le> err (k + (du - cu)) * \<bar>z / factors_fl cu du\<bar> \<and>
        1 / 2 ^ (m + 10 * (du - cu)) \<le> \<bar>z / factors_fl cu du\<bar> \<and>
        \<bar>z / factors_fl cu du\<bar> \<le> 2 ^ (m + 10 * (du - cu))"
proof (induction "du - cu" arbitrary: cu v z k m)
  case 0
  then have "cu = du" by simp
  with 0 show ?case
    by (simp add: walk_up_fl_done)
next
  case (Suc d)
  then have cu: "Suc cu \<le> du" "cu < du" and c: "cu < 7" and d: "d = du - Suc cu"
    by arith+
  let ?f = "factor_fl cu"
  have f: "1 \<le> ?f" "?f \<le> 1024"
    using factor_fl_range [OF c] by simp_all
  then have fabs: "\<bar>?f\<bar> = ?f" and fnz: "?f \<noteq> 0" by simp_all
  have steps: "du - cu = Suc (du - Suc cu)"
    using cu(1) by arith
  have k: "k \<le> 14" "Suc k + (du - Suc cu) \<le> 14"
    using Suc.prems(3) steps by arith+
  have m: "m + 10 \<le> 1000" "m + 10 + 10 * (du - Suc cu) \<le> 1000"
    using Suc.prems(4) steps by arith+
  have win: "1 / 2 ^ (m + 10) \<le> \<bar>z / ?f\<bar>" "\<bar>z / ?f\<bar> \<le> 2 ^ (m + 10)"
    using window_divide [OF Suc.prems(5,6) f] by simp_all
  have win': "1 / 2 ^ 1000 \<le> \<bar>z / ?f\<bar>" "\<bar>z / ?f\<bar> \<le> 2 ^ 1000"
    using window_weaken [OF win m(1)] by simp_all
  have "\<bar>v / ?f - z / ?f\<bar> = \<bar>v - z\<bar> / ?f"
    by (simp add: diff_divide_distrib [symmetric] fabs)
  also have "\<dots> \<le> err k * \<bar>z\<bar> / ?f"
    using Suc.prems(7) f(1) by (intro divide_right_mono) simp_all
  also have "\<dots> = err k * \<bar>z / ?f\<bar>"
    by (simp add: fabs)
  finally have close: "\<bar>v / ?f - z / ?f\<bar> \<le> err k * \<bar>z / ?f\<bar>" .
  from to_double_step [OF k(1) win' close]
  have td: "to_double (v / ?f) = Number (fl (v / ?f))"
    and close': "\<bar>fl (v / ?f) - z / ?f\<bar> \<le> err (Suc k) * \<bar>z / ?f\<bar>"
    by simp_all
  from Suc.hyps(1) [OF d Suc.prems(1) cu(1) k(2) m(2) win close']
  obtain v' where v': "walk_up_fl du (Suc cu) (Number (fl (v / ?f))) = Number v'"
    "\<bar>v' - z / ?f / factors_fl (Suc cu) du\<bar>
       \<le> err (Suc k + (du - Suc cu)) * \<bar>z / ?f / factors_fl (Suc cu) du\<bar>"
    "1 / 2 ^ (m + 10 + 10 * (du - Suc cu)) \<le> \<bar>z / ?f / factors_fl (Suc cu) du\<bar>"
    "\<bar>z / ?f / factors_fl (Suc cu) du\<bar> \<le> 2 ^ (m + 10 + 10 * (du - Suc cu))"
    by blast
  have prod: "z / factors_fl cu du = z / ?f / factors_fl (Suc cu) du"
    using cu(2) by (simp add: upt_conv_Cons)
  have e1: "k + (du - cu) = Suc k + (du - Suc cu)"
    using steps by simp
  have e2: "m + 10 * (du - cu) = m + 10 + 10 * (du - Suc cu)"
    using steps by simp
  have "walk_up_fl du cu (Number v) = Number v'"
    using cu(2) td v'(1) fnz by (simp add: walk_up_fl.simps [of du cu])
  then show ?case
    unfolding prod e1 e2 using v'(2,3,4) by blast
qed

lemma convert_fl_own:
  assumes "map_of units f = Some uf" and "map_of units t = Some ut"
  shows "convert_fl n (JString f) (JString t) =
          Inr (if ref ut < ref uf then walk_down_fl (ref ut) (ref uf) n
               else if ref uf < ref ut then walk_up_fl (ref ut) (ref uf) n
               else n)"
  unfolding convert_fl_def Let_def unitRef_or_hr_own [OF assms(1)] unitRef_or_hr_own [OF assms(2)]
  by simp

lemma round_trip_down_up:
  assumes cu: "cu \<le> 7" and du: "du \<le> cu"
    and n: "1 / 2 ^ 800 \<le> \<bar>n\<bar>" "\<bar>n\<bar> \<le> 2 ^ 800"
  shows "\<exists>c b. walk_down_fl du cu (Number n) = Number c \<and>
               walk_up_fl cu du (Number c) = Number b \<and> \<bar>b - n\<bar> \<le> \<bar>n\<bar> / 2 ^ 49"
proof -
  let ?d = "cu - du"
  let ?P = "factors_fl du cu"
  have d: "?d \<le> 7" using cu by arith
  then have c1: "0 + ?d \<le> 14" "800 + 10 * ?d \<le> 1000"
    and c2: "?d + ?d \<le> 14" "800 + 10 * ?d + 10 * ?d \<le> 1000"
    by arith+
  have start: "\<bar>n - n\<bar> \<le> err 0 * \<bar>n\<bar>" by simp
  from walk_down_fl_err [OF cu du c1 n start]
  obtain c where c: "walk_down_fl du cu (Number n) = Number c"
    "\<bar>c - n * ?P\<bar> \<le> err (0 + ?d) * \<bar>n * ?P\<bar>"
    "1 / 2 ^ (800 + 10 * ?d) \<le> \<bar>n * ?P\<bar>" "\<bar>n * ?P\<bar> \<le> 2 ^ (800 + 10 * ?d)"
    by blast
  have c': "\<bar>c - n * ?P\<bar> \<le> err ?d * \<bar>n * ?P\<bar>"
    using c(2) by simp
  from walk_up_fl_err [OF cu du c2 c(3,4) c']
  obtain b where b: "walk_up_fl cu du (Number c) = Number b"
    "\<bar>b - n * ?P / ?P\<bar> \<le> err (?d + ?d) * \<bar>n * ?P / ?P\<bar>"
    by blast
  have "(0::real) < 1 / 2 ^ (800 + 10 * ?d)" by simp
  then have "0 < \<bar>n * ?P\<bar>"
    using c(3) by linarith
  then have "?P \<noteq> 0" by auto
  then have cancel: "n * ?P / ?P = n" by simp
  have "err (?d + ?d) * \<bar>n\<bar> \<le> 1 / 2 ^ 49 * \<bar>n\<bar>"
    using err_le [OF c2(1)] by (intro mult_right_mono) simp_all
  then have "\<bar>b - n\<bar> \<le> \<bar>n\<bar> / 2 ^ 49"
    using b(2) unfolding cancel by simp
  with c(1) b(1) show ?thesis by blast
qed

lemma round_trip_up_down:
  assumes du: "du \<le> 7" and cu: "cu \<le> du"
    and n: "1 / 2 ^ 800 \<le> \<bar>n\<bar>" "\<bar>n\<bar> \<le> 2 ^ 800"
  shows "\<exists>c b. walk_up_fl du cu (Number n) = Number c \<and>
               walk_down_fl cu du (Number c) = Number b \<and> \<bar>b - n\<bar> \<le> \<bar>n\<bar> / 2 ^ 49"
proof -
  let ?d = "du - cu"
  let ?P = "factors_fl cu du"
  have d: "?d \<le> 7" using du by arith
  then have c1: "0 + ?d \<le> 14" "800 + 10 * ?d \<le> 1000"
    and c2: "?d + ?d \<le> 14" "800 + 10 * ?d + 10 * ?d \<le> 1000"
    by arith+
  have start: "\<bar>n - n\<bar> \<le> err 0 * \<bar>n\<bar>" by simp
  from walk_up_fl_err [OF du cu c1 n start]
  obtain c where c: "walk_up_fl du cu (Number n) = Number c"
    "\<bar>c - n / ?P\<bar> \<le> err (0 + ?d) * \<bar>n / ?P\<bar>"
    "1 / 2 ^ (800 + 10 * ?d) \<le> \<bar>n / ?P\<bar>" "\<bar>n / ?P\<bar> \<le> 2 ^ (800 + 10 * ?d)"
    by blast
  have c': "\<bar>c - n / ?P\<bar> \<le> err ?d * \<bar>n / ?P\<bar>"
    using c(2) by simp
  from walk_down_fl_err [OF du cu c2 c(3,4) c']
  obtain b where b: "walk_down_fl cu du (Number c) = Number b"
    "\<bar>b - n / ?P * ?P\<bar> \<le> err (?d + ?d) * \<bar>n / ?P * ?P\<bar>"
    by blast
  have "(0::real) < 1 / 2 ^ (800 + 10 * ?d)" by simp
  then have "0 < \<bar>n / ?P\<bar>"
    using c(3) by linarith
  then have "?P \<noteq> 0" by auto
  then have cancel: "n / ?P * ?P = n" by simp
  have "err (?d + ?d) * \<bar>n\<bar> \<le> 1 / 2 ^ 49 * \<bar>n\<bar>"
    using err_le [OF c2(1)] by (intro mult_right_mono) simp_all
  then have "\<bar>b - n\<bar> \<le> \<bar>n\<bar> / 2 ^ 49"
    using b(2) unfolding cancel by simp
  with c(1) b(1) show ?thesis by blast
qed

text \<open>
  C4, amended. For all units \<open>f\<close> and \<open>t\<close> of the table and every magnitude \<open>n\<close> that is 0
  or lies between \<open>2\<^sup>-\<^sup>8\<^sup>0\<^sup>0\<close> and \<open>2\<^sup>8\<^sup>0\<^sup>0\<close> in absolute value (so that no operation
  overflows or leaves the normal range), converting \<open>n\<close> from \<open>f\<close> to \<open>t\<close> and the
  result back from \<open>t\<close> to \<open>f\<close> on doubles returns \<open>n\<close> up to an error that is relative
  to the magnitude: at most \<open>\<bar>n\<bar> / 2\<^sup>4\<^sup>9\<close>.
\<close>

theorem convert_round_trip_relative_error:
  assumes "map_of units f = Some uf" and "map_of units t = Some ut"
    and "n = 0 \<or> (1 / 2 ^ 800 \<le> \<bar>n\<bar> \<and> \<bar>n\<bar> \<le> 2 ^ 800)"
  shows "\<exists>c b. convert_fl (Number n) (JString f) (JString t) = Inr (Number c) \<and>
               convert_fl (Number c) (JString t) (JString f) = Inr (Number b) \<and>
               \<bar>b - n\<bar> \<le> \<bar>n\<bar> / 2 ^ 49"
proof -
  have r: "ref uf \<le> 7" "ref ut \<le> 7"
    using assms(1,2) unit_of_ref by blast+
  show ?thesis
  proof (cases "n = 0")
    case True
    have "convert_fl (Number 0) (JString f) (JString t) = Inr (Number 0)"
      "convert_fl (Number 0) (JString t) (JString f) = Inr (Number 0)"
      unfolding convert_fl_own [OF assms(1,2)] convert_fl_own [OF assms(2,1)]
      using r by (simp_all add: walk_down_fl_0 walk_up_fl_0)
    with True show ?thesis by simp
  next
    case False
    with assms(3) have n: "1 / 2 ^ 800 \<le> \<bar>n\<bar>" "\<bar>n\<bar> \<le> 2 ^ 800" by simp_all
    consider (down) "ref ut < ref uf" | (up) "ref uf < ref ut" | (same) "ref ut = ref uf"
      by arith
    then show ?thesis
    proof cases
      case down
      then have "ref ut \<le> ref uf" by simp
      from round_trip_down_up [OF r(1) this n] down show ?thesis
        unfolding convert_fl_own [OF assms(1,2)] convert_fl_own [OF assms(2,1)] by simp
    next
      case up
      then have "ref uf \<le> ref ut" by simp
      from round_trip_up_down [OF r(2) this n] up show ?thesis
        unfolding convert_fl_own [OF assms(1,2)] convert_fl_own [OF assms(2,1)] by simp
    next
      case same
      then show ?thesis
        unfolding convert_fl_own [OF assms(1,2)] convert_fl_own [OF assms(2,1)] by simp
    qed
  qed
qed

theorem convert_round_trip_relative_error_witness:
  "map_of units ''hr'' = Some \<lparr>full = ''hour'', abbr = ''hr'', ref = 3\<rparr> \<and>
   map_of units ''min'' = Some \<lparr>full = ''minute'', abbr = ''min'', ref = 2\<rparr> \<and>
   ((1::real) = 0 \<or> (1 / 2 ^ 800 \<le> \<bar>1::real\<bar> \<and> \<bar>1::real\<bar> \<le> 2 ^ 800)) \<and>
   (\<exists>c b. convert_fl (Number 1) (JString ''hr'') (JString ''min'') = Inr (Number c) \<and>
          convert_fl (Number c) (JString ''min'') (JString ''hr'') = Inr (Number b) \<and>
          \<bar>b - 1\<bar> \<le> \<bar>1\<bar> / 2 ^ 49)"
proof -
  have f: "map_of units ''hr'' = Some \<lparr>full = ''hour'', abbr = ''hr'', ref = 3\<rparr>"
    by (simp add: units_def)
  have t: "map_of units ''min'' = Some \<lparr>full = ''minute'', abbr = ''min'', ref = 2\<rparr>"
    by (simp add: units_def)
  have n: "(1::real) = 0 \<or> (1 / 2 ^ 800 \<le> \<bar>1::real\<bar> \<and> \<bar>1::real\<bar> \<le> 2 ^ 800)"
    by simp
  from convert_round_trip_relative_error [OF f t n] f t n show ?thesis
    by blast
qed

subsection \<open>The round trip of \<open>10\<^sup>2\<^sup>0\<close> seconds\<close>

lemma fl_1000: "fl 1000 = 1000"
proof -
  have "fl 1000 = of_int (round_even (1000 / pow2 (9 - 52))) * pow2 (9 - 52)"
    by (rule fl_eval) (simp_all add: pow2_def)
  also have "\<dots> = 1000"
    by (simp add: pow2_def round_even_def)
  finally show ?thesis .
qed

lemma to_double_1e23: "to_double 100000000000000000000000 = Number 99999999999999991611392"
  unfolding to_double_def Let_def fl_1e23 by (simp add: pow2_def)

lemma to_double_back:
  "to_double (99999999999999991611392 / 1000) = Number 99999999999999983616"
  unfolding to_double_def Let_def fl_back by (simp add: pow2_def)

lemma factor_fl_0: "factor_fl 0 = 1000"
  by (simp add: factor_fl_def unitRefs_def toNumber_def fl_1000)

text \<open>
  C4, as stated, fails: \<^verbatim>\<open>convert(1e20, 's', 'ms')\<close> has the magnitude
  99999999999999991611392, the double nearest to \<open>10\<^sup>2\<^sup>3\<close>, and converting that back
  gives 99999999999999983616, which is 16384 away from \<open>10\<^sup>2\<^sup>0\<close>, more than
  \<open>10\<^sup>-\<^sup>2\<close> for the default precision 2.
\<close>

theorem convert_round_trip_counterexample:
  "convert_fl (Number (10 ^ 20)) (JString ''s'') (JString ''ms'') =
     Inr (Number 99999999999999991611392) \<and>
   convert_fl (Number 99999999999999991611392) (JString ''ms'') (JString ''s'') =
     Inr (Number 99999999999999983616) \<and>
   \<not> \<bar>99999999999999983616 - 10 ^ 20\<bar> \<le> (1 / 10 ^ 2 :: real)"
proof (intro conjI)
  have "walk_down_fl 0 (Suc 0) (Number (10 ^ 20)) = times_double (Number (10 ^ 20)) (factor_fl 0)"
    by (simp add: walk_down_fl.simps [of 0 "Suc 0"] walk_down_fl_done)
  also have "\<dots> = to_double 100000000000000000000000"
    unfolding factor_fl_0 by simp
  also have "\<dots> = Number 99999999999999991611392"
    by (rule to_double_1e23)
  finally have down: "walk_down_fl 0 (Suc 0) (Number (10 ^ 20)) = Number 99999999999999991611392" .
  have s: "unitRef_or_hr (JString ''s'') = Inr (Some (Suc 0))"
    and ms: "unitRef_or_hr (JString ''ms'') = Inr (Some 0)"
    by (simp_all add: unitRef_or_hr_def unitRef_def units_def)
  show "convert_fl (Number (10 ^ 20)) (JString ''s'') (JString ''ms'') =
     Inr (Number 99999999999999991611392)"
    unfolding convert_fl_def s ms Let_def using down by simp
  have "walk_up_fl (Suc 0) 0 (Number 99999999999999991611392) =
          divide_double (Number 99999999999999991611392) (factor_fl 0)"
    by (simp add: walk_up_fl.simps [of "Suc 0" 0] walk_up_fl_done)
  also have "\<dots> = to_double (99999999999999991611392 / 1000)"
    unfolding factor_fl_0 by simp
  also have "\<dots> = Number 99999999999999983616"
    by (rule to_double_back)
  finally have up: "walk_up_fl (Suc 0) 0 (Number 99999999999999991611392) =
      Number 99999999999999983616" .
  show "convert_fl (Number 99999999999999991611392) (JString ''ms'') (JString ''s'') =
     Inr (Number 99999999999999983616)"
    unfolding convert_fl_def s ms Let_def using up by simp
  show "\<not> \<bar>99999999999999983616 - 10 ^ 20\<bar> \<le> (1 / 10 ^ 2 :: real)"
    by simp
qed

section \<open>A precision of zero\<close>




section \<open>The rounding helper on a negative tie\<close>























end
